theory Spec2Isabelle
  imports Complex_Main "HOL-Library.Word" "HOL-Library.AList"
begin

section \<open>Errors and Python ranges\<close>

text \<open>
  The exceptions the modelled code can raise. A function of the source that can raise returns
  a sum whose left injection carries the exception.
\<close>

datatype error = ValueError | IndexError | KeyError | NetworkXPointlessConcept

text \<open>\<^verbatim>\<open>range(start, stop)\<close> on Python's unbounded integers.\<close>

definition range2 :: "int \<Rightarrow> int \<Rightarrow> int list" where
  "range2 start stop = [start..stop - 1]"

text \<open>
  \<^verbatim>\<open>range(start, stop, step)\<close>: a zero step raises \<^verbatim>\<open>ValueError\<close>; otherwise the length
  is the one Python computes for either sign of the step.
\<close>

definition range3 :: "int \<Rightarrow> int \<Rightarrow> int \<Rightarrow> error + int list" where
  "range3 start stop step =
     (if step = 0 then Inl ValueError
      else if 0 < step then
        Inr (map (\<lambda>k. start + int k * step) [0..<nat ((stop - start + step - 1) div step)])
      else
        Inr (map (\<lambda>k. start + int k * step) [0..<nat ((start - stop - step - 1) div (- step))]))"

section \<open>Undirected graphs as networkx keeps them\<close>

text \<open>
  \<^verbatim>\<open>nx.Graph\<close> keeps its nodes in insertion order and, for each node, its neighbours in
  insertion order. Adding a node or an edge that is already present changes nothing.
\<close>

record 'a graph =
  nodes :: "'a list"
  adj :: "'a \<Rightarrow> 'a list"

definition empty_graph :: "'a graph" where
  "empty_graph = \<lparr>nodes = [], adj = (\<lambda>_. [])\<rparr>"

definition add_node :: "'a graph \<Rightarrow> 'a \<Rightarrow> 'a graph" where
  "add_node g n = (if n \<in> set (nodes g) then g else g\<lparr>nodes := nodes g @ [n]\<rparr>)"

definition add_edge :: "'a graph \<Rightarrow> 'a \<Rightarrow> 'a \<Rightarrow> 'a graph" where
  "add_edge g u v =
     (let g1 = add_node (add_node g u) v;
          a1 = (adj g1)(u := (if v \<in> set (adj g1 u) then adj g1 u else adj g1 u @ [v]));
          a2 = a1(v := (if u \<in> set (a1 v) then a1 v else a1 v @ [u]))
      in g1\<lparr>adj := a2\<rparr>)"

definition add_nodes_from :: "'a graph \<Rightarrow> 'a list \<Rightarrow> 'a graph" where
  "add_nodes_from g ns = foldl add_node g ns"

definition add_edges_from :: "'a graph \<Rightarrow> ('a \<times> 'a) list \<Rightarrow> 'a graph" where
  "add_edges_from g es = foldl (\<lambda>h (u, v). add_edge h u v) g es"

text \<open>
  Iterating \<^verbatim>\<open>G.edges\<close>: every node in node order, every neighbour of it in adjacency order,
  skipping the neighbours whose own row has been reported already.
\<close>

fun edges_scan :: "'a graph \<Rightarrow> 'a list \<Rightarrow> 'a list \<Rightarrow> ('a \<times> 'a) list" where
  "edges_scan g seen [] = []"
| "edges_scan g seen (n # ns) =
     map (Pair n) (filter (\<lambda>nbr. nbr \<notin> set seen) (adj g n)) @ edges_scan g (n # seen) ns"

definition edges :: "'a graph \<Rightarrow> ('a \<times> 'a) list" where
  "edges g = edges_scan g [] (nodes g)"

text \<open>\<^verbatim>\<open>itertools.combinations(nodes, 2)\<close>.\<close>

fun combinations2 :: "'a list \<Rightarrow> ('a \<times> 'a) list" where
  "combinations2 [] = []"
| "combinations2 (x # xs) = map (Pair x) xs @ combinations2 xs"

text \<open>\<^verbatim>\<open>nx.complete_graph\<close> on an iterable of nodes.\<close>

definition complete_graph :: "'a list \<Rightarrow> 'a graph" where
  "complete_graph ns =
     (let G = add_nodes_from empty_graph ns
      in if 1 < length ns then add_edges_from G (combinations2 ns) else G)"

text \<open>The set of ordered pairs that are adjacent; it is symmetric in every graph built here.\<close>

definition edge_rel :: "'a graph \<Rightarrow> ('a \<times> 'a) set" where
  "edge_rel g = {(u, v). v \<in> set (adj g u)}"

text \<open>
  A graph is connected when it has a node and any two of its nodes are joined by a path.
\<close>

definition connected_graph :: "'a graph \<Rightarrow> bool" where
  "connected_graph g \<longleftrightarrow>
     nodes g \<noteq> [] \<and> (\<forall>u \<in> set (nodes g). \<forall>v \<in> set (nodes g). (u, v) \<in> (edge_rel g)\<^sup>*)"

section \<open>The clique-gate composer\<close>

definition union_components :: "'a graph list \<Rightarrow> 'a graph" where
  "union_components components =
     foldl (\<lambda>master_graph comp.
              add_edges_from (add_nodes_from master_graph (nodes comp)) (edges comp))
           empty_graph components"

text \<open>The list of gate identifier ranges, one per start in the stepped range.\<close>

definition gate_node_ids :: "int \<Rightarrow> int \<Rightarrow> error + int list list" where
  "gate_node_ids num_big_components gate_size =
     (case range3 0 (sum_list (range2 0 num_big_components) * gate_size) gate_size of
        Inl e \<Rightarrow> Inl e
      | Inr starts \<Rightarrow> Inr (map (\<lambda>start. range2 start (start + gate_size)) starts))"

definition component_node_ids :: "nat \<Rightarrow> int \<Rightarrow> int \<Rightarrow> int \<Rightarrow> error + int list list" where
  "component_node_ids num_gates num_big_components big_component_size gate_size =
     (case range3 (int num_gates * gate_size)
                  (int num_gates * gate_size + num_big_components * big_component_size)
                  big_component_size of
        Inl e \<Rightarrow> Inl e
      | Inr starts \<Rightarrow> Inr (map (\<lambda>start. range2 start (start + big_component_size)) starts))"

definition gates_of :: "int \<Rightarrow> int \<Rightarrow> error + int graph list" where
  "gates_of num_big_components gate_size =
     (case gate_node_ids num_big_components gate_size of
        Inl e \<Rightarrow> Inl e
      | Inr ids \<Rightarrow> Inr (map complete_graph ids))"

definition big_comps_of :: "int \<Rightarrow> int \<Rightarrow> int \<Rightarrow> error + int graph list" where
  "big_comps_of num_big_components big_component_size gate_size =
     (case gate_node_ids num_big_components gate_size of
        Inl e \<Rightarrow> Inl e
      | Inr ids \<Rightarrow>
          (case component_node_ids (length ids) num_big_components big_component_size gate_size of
             Inl e \<Rightarrow> Inl e
           | Inr cids \<Rightarrow> Inr (map complete_graph cids)))"

text \<open>
  \<^verbatim>\<open>for i, node in enumerate(gate_half): master_graph.add_edge(node, comp_nodes[i])\<close>;
  reading \<^verbatim>\<open>comp_nodes[i]\<close> past the end raises \<^verbatim>\<open>IndexError\<close>.
\<close>

fun connect_nodes :: "'a graph \<Rightarrow> nat \<Rightarrow> 'a list \<Rightarrow> 'a list \<Rightarrow> error + 'a graph" where
  "connect_nodes g i [] comp_nodes = Inr g"
| "connect_nodes g i (node # rest) comp_nodes =
     (if i < length comp_nodes
      then connect_nodes (add_edge g node (comp_nodes ! i)) (Suc i) rest comp_nodes
      else Inl IndexError)"

text \<open>
  The body of the inner loop: take the gate at \<open>current_gate_ind\<close>, advance the counter, join
  the first half of the gate to the source component and the second half to the destination.
\<close>

definition insert_gate ::
  "'a graph list \<Rightarrow> 'a graph \<times> nat \<Rightarrow> 'a graph \<Rightarrow> 'a graph \<Rightarrow> error + ('a graph \<times> nat)" where
  "insert_gate gates st src_comp dest_comp =
     (case st of (master_graph, current_gate_ind) \<Rightarrow>
        if current_gate_ind < length gates then
          (let gate_nodes = nodes (gates ! current_gate_ind);
               half = length gate_nodes div 2
           in case connect_nodes master_graph 0 (take half gate_nodes) (nodes src_comp) of
                Inl e \<Rightarrow> Inl e
              | Inr g1 \<Rightarrow>
                  (case connect_nodes g1 0 (drop half gate_nodes) (nodes dest_comp) of
                     Inl e \<Rightarrow> Inl e
                   | Inr g2 \<Rightarrow> Inr (g2, Suc current_gate_ind)))
        else Inl IndexError)"

fun dest_loop ::
  "'a graph list \<Rightarrow> 'a graph \<times> nat \<Rightarrow> 'a graph \<Rightarrow> 'a graph list \<Rightarrow> error + ('a graph \<times> nat)" where
  "dest_loop gates st src_comp [] = Inr st"
| "dest_loop gates st src_comp (dest_comp # rest) =
     (case insert_gate gates st src_comp dest_comp of
        Inl e \<Rightarrow> Inl e
      | Inr st' \<Rightarrow> dest_loop gates st' src_comp rest)"

fun src_loop ::
  "'a graph list \<Rightarrow> 'a graph list \<Rightarrow> 'a graph \<times> nat \<Rightarrow> (nat \<times> 'a graph) list
     \<Rightarrow> error + ('a graph \<times> nat)" where
  "src_loop gates big_comps st [] = Inr st"
| "src_loop gates big_comps st ((comp_ind, src_comp) # rest) =
     (case dest_loop gates st src_comp (drop (comp_ind + 1) big_comps) of
        Inl e \<Rightarrow> Inl e
      | Inr st' \<Rightarrow> src_loop gates big_comps st' rest)"

definition make_complete_clique_gate_graph :: "int \<Rightarrow> int \<Rightarrow> int \<Rightarrow> error + int graph" where
  "make_complete_clique_gate_graph num_big_components big_component_size gate_size =
     (case gates_of num_big_components gate_size of
        Inl e \<Rightarrow> Inl e
      | Inr gates \<Rightarrow>
          (case big_comps_of num_big_components big_component_size gate_size of
             Inl e \<Rightarrow> Inl e
           | Inr big_comps \<Rightarrow>
               (case src_loop gates big_comps (union_components (gates @ big_comps), 0)
                       (enumerate 0 (butlast big_comps)) of
                  Inl e \<Rightarrow> Inl e
                | Inr (master_graph, current_gate_ind) \<Rightarrow> Inr master_graph)))"

section \<open>The serializer and the composer's entry point\<close>

text \<open>
  What \<^verbatim>\<open>print\<close> writes, one value per line: the usage text, the node count, an edge line
  of two identifiers, a blank line, and a layout line of an identifier with its coordinate.
  The coordinate type \<open>'c\<close> stands for the pair of floats of the layout.
\<close>

datatype 'c line = Text string | NodeCount nat | EdgeLine nat nat | Blank | LayoutLine nat 'c

text \<open>\<^verbatim>\<open>d[k]\<close> on a dict: a missing key raises \<^verbatim>\<open>KeyError\<close>.\<close>

definition dict_get :: "('k \<rightharpoonup> 'v) \<Rightarrow> 'k \<Rightarrow> error + 'v" where
  "dict_get d k = (case d k of None \<Rightarrow> Inl KeyError | Some v \<Rightarrow> Inr v)"

text \<open>\<^verbatim>\<open>if n not in node_to_id: node_to_id[n] = current_id; current_id += 1\<close>.\<close>

definition assign_id :: "('a \<rightharpoonup> nat) \<times> nat \<Rightarrow> 'a \<Rightarrow> ('a \<rightharpoonup> nat) \<times> nat" where
  "assign_id st n =
     (case st of (node_to_id, current_id) \<Rightarrow>
        if n \<notin> dom node_to_id then (node_to_id(n \<mapsto> current_id), current_id + 1)
        else (node_to_id, current_id))"

text \<open>
  The loop over \<^verbatim>\<open>G.edges\<close>. The state is the dict, the counter and the lines printed so
  far; an exception leaves the lines printed before it.
\<close>

fun edge_lines ::
  "('a \<times> 'a) list \<Rightarrow> ('a \<rightharpoonup> nat) \<times> nat \<Rightarrow> 'c line list
     \<Rightarrow> 'c line list \<times> (error + ('a \<rightharpoonup> nat) \<times> nat)" where
  "edge_lines [] st out = (out, Inr st)"
| "edge_lines (e # es) st out =
     (let n0 = fst e; n1 = snd e;
          st1 = assign_id st n0;
          st2 = assign_id st1 n1
      in case dict_get (fst st2) n0 of
           Inl err \<Rightarrow> (out, Inl err)
         | Inr id0 \<Rightarrow>
             (case dict_get (fst st2) n1 of
                Inl err \<Rightarrow> (out, Inl err)
              | Inr id1 \<Rightarrow> edge_lines es st2 (out @ [EdgeLine id0 id1])))"

text \<open>
  The loop over \<^verbatim>\<open>layout.items()\<close>. The layout of networkx has one entry per node of the
  graph, in node order; \<open>pos\<close> gives the coordinate it assigns to a node.
\<close>

fun layout_lines ::
  "'a list \<Rightarrow> ('a \<Rightarrow> 'c) \<Rightarrow> ('a \<rightharpoonup> nat) \<Rightarrow> 'c line list \<Rightarrow> 'c line list \<times> error option" where
  "layout_lines [] pos node_to_id out = (out, None)"
| "layout_lines (node # rest) pos node_to_id out =
     (case dict_get node_to_id node of
        Inl err \<Rightarrow> (out, Some err)
      | Inr i \<Rightarrow> layout_lines rest pos node_to_id (out @ [LayoutLine i (pos node)]))"

text \<open>
  \<^verbatim>\<open>output_graph\<close>: the lines written to standard output and the exception raised, if any.
\<close>

definition output_graph :: "'a graph \<Rightarrow> ('a \<Rightarrow> 'c) \<Rightarrow> 'c line list \<times> error option" where
  "output_graph G pos =
     (case edge_lines (edges G) (Map.empty, 0) [NodeCount (length (nodes G))] of
        (out, Inl err) \<Rightarrow> (out, Some err)
      | (out, Inr (node_to_id, current_id)) \<Rightarrow>
          (case layout_lines (nodes G) pos node_to_id (out @ [Blank]) of
             (out', Some err) \<Rightarrow> (out', Some err)
           | (out', None) \<Rightarrow> (out' @ [Blank], None)))"

text \<open>
  The identifier table alone, as the edge loop leaves it.
\<close>

definition node_ids :: "'a graph \<Rightarrow> ('a \<rightharpoonup> nat) \<times> nat" where
  "node_ids G = foldl (\<lambda>st e. assign_id (assign_id st (fst e)) (snd e)) (Map.empty, 0) (edges G)"

text \<open>
  \<^verbatim>\<open>int(s)\<close> is a parameter of \<open>main\<close>: \<open>None\<close> stands for its \<^verbatim>\<open>ValueError\<close>. The function
  below is that conversion on plain decimal numerals (an optional minus sign and ASCII digits),
  for running \<open>main\<close> on concrete arguments.
\<close>

definition digit_of :: "char \<Rightarrow> nat option" where
  "digit_of c =
     map_of [(CHR ''0'', 0), (CHR ''1'', 1), (CHR ''2'', 2), (CHR ''3'', 3), (CHR ''4'', 4),
             (CHR ''5'', 5), (CHR ''6'', 6), (CHR ''7'', 7), (CHR ''8'', 8), (CHR ''9'', 9)] c"

fun digits_value :: "nat \<Rightarrow> string \<Rightarrow> nat option" where
  "digits_value acc [] = Some acc"
| "digits_value acc (c # cs) =
     (case digit_of c of None \<Rightarrow> None | Some d \<Rightarrow> digits_value (10 * acc + d) cs)"

definition plain_decimal :: "string \<Rightarrow> int option" where
  "plain_decimal s =
     (case s of
        [] \<Rightarrow> None
      | c # cs \<Rightarrow>
          if c = CHR ''-'' then (if cs = [] then None else map_option (\<lambda>n. - int n) (digits_value 0 cs))
          else map_option int (digits_value 0 s))"

text \<open>
  \<open>main\<close>: the lines printed, and either the exception raised or the graph that was built
  and drawn (\<open>None\<close> when it returned before building one). Drawing the graph and showing
  the plot are not part of the model.
\<close>

definition main ::
  "(string \<Rightarrow> int option) \<Rightarrow> (int \<Rightarrow> 'c) \<Rightarrow> string list
     \<Rightarrow> 'c line list \<times> (error + int graph option)" where
  "main to_int pos argv =
     (if length argv < 3 then
        (case argv of
           [] \<Rightarrow> ([], Inl IndexError)
         | prog # _ \<Rightarrow>
             ([Text (''Usage: '' @ prog @ '' <num-big-components> <big-component-size> <gate-size>'')],
              Inr None))
      else
        (case to_int (argv ! 1) of
           None \<Rightarrow> ([], Inl ValueError)
         | Some num_big_components \<Rightarrow>
             (case to_int (argv ! 2) of
                None \<Rightarrow> ([], Inl ValueError)
              | Some big_component_size \<Rightarrow>
                  if length argv \<le> 3 then ([], Inl IndexError)
                  else
                    (case to_int (argv ! 3) of
                       None \<Rightarrow> ([], Inl ValueError)
                     | Some gate_size \<Rightarrow>
                         (case make_complete_clique_gate_graph num_big_components
                                 big_component_size gate_size of
                            Inl err \<Rightarrow> ([], Inl err)
                          | Inr graph \<Rightarrow>
                              (case output_graph graph pos of
                                 (out, Some err) \<Rightarrow> (out, Inl err)
                               | (out, None) \<Rightarrow> (out, Inr (Some graph))))))))"

section \<open>The social-circles generator\<close>

text \<open>
  An agent type is a colour and a reach. The reach is modelled as a Python integer; a float
  reach is outside the model. The dict \<^verbatim>\<open>agent_type_to_quantity\<close> is the list of its items in
  insertion order, and a quantity is a count. What \<^verbatim>\<open>verbose\<close> prints and the sparse grid
  used after a \<^verbatim>\<open>MemoryError\<close> are not modelled.
\<close>

datatype color_spec = ColorName string | ColorRGB int int int

record agent =
  color :: color_spec
  reach :: int

text \<open>
  The placement grid: a numpy array of \<^verbatim>\<open>uint8\<close> cells with its shape. Every read and write
  of the source is at a coordinate inside the shape, so indexing is total here.
\<close>

record grid =
  shape :: "int \<times> int"
  cells :: "int \<times> int \<Rightarrow> 8 word"

text \<open>\<^verbatim>\<open>np.zeros(grid_size, dtype='uint8')\<close>; a negative dimension raises \<^verbatim>\<open>ValueError\<close>.\<close>

definition zeros :: "int \<times> int \<Rightarrow> error + grid" where
  "zeros grid_size =
     (if fst grid_size < 0 \<or> snd grid_size < 0 then Inl ValueError
      else Inr \<lparr>shape = grid_size, cells = (\<lambda>_. 0)\<rparr>)"

text \<open>
  A call of the generator returns a value, raises, or is still drawing random numbers. The
  random source is the list of the raw numbers it will produce: \<^verbatim>\<open>rand.integers(high)\<close> takes
  the next one and reduces it into \<open>[0, high)\<close>, and raises \<^verbatim>\<open>ValueError\<close> when \<open>high \<le> 0\<close>.
  A run that needs more numbers than the list holds has not returned: it is \<open>Pending\<close>.
\<close>

datatype 'a outcome = Returned 'a | Raised error | Pending

definition integers :: "int list \<Rightarrow> int \<Rightarrow> (int \<times> int list) outcome" where
  "integers rand high =
     (if high \<le> 0 then Raised ValueError
      else case rand of [] \<Rightarrow> Pending | r # rest \<Rightarrow> Returned (r mod high, rest))"

text \<open>
  \<^verbatim>\<open>choose_empty_spot\<close>: draw a cell, and draw again while the cell is occupied.
\<close>

function choose_empty_spot :: "grid \<Rightarrow> int list \<Rightarrow> (int \<times> int \<times> int list) outcome" where
  "choose_empty_spot grid rand =
     (case integers rand (fst (shape grid)) of
        Raised e \<Rightarrow> Raised e
      | Pending \<Rightarrow> Pending
      | Returned (x, rand1) \<Rightarrow>
          (case integers rand1 (snd (shape grid)) of
             Raised e \<Rightarrow> Raised e
           | Pending \<Rightarrow> Pending
           | Returned (y, rand2) \<Rightarrow>
               if 0 < cells grid (x, y) then choose_empty_spot grid rand2
               else Returned (x, y, rand2)))"
  by pat_completeness auto
termination
  by (relation "measure (\<lambda>(grid, rand). length rand)")
     (auto simp: integers_def split: if_splits list.splits)

text \<open>
  \<^verbatim>\<open>distance\<close> is the Euclidean distance of two cells. The source compares its float value
  with the integer reach; within the search box the squared distance is an integer below
  \<open>2^53\<close>, on which the float comparison and the real one agree.
\<close>

definition distance :: "int \<Rightarrow> int \<Rightarrow> int \<Rightarrow> int \<Rightarrow> real" where
  "distance x0 y0 x1 y1 = sqrt (real_of_int ((x0 - x1)\<^sup>2 + (y0 - y1)\<^sup>2))"

definition within_reach :: "int \<Rightarrow> int \<Rightarrow> int \<Rightarrow> int \<Rightarrow> int \<Rightarrow> bool" where
  "within_reach x y i j r \<longleftrightarrow> distance x y i j \<le> real_of_int r"

text \<open>
  \<^verbatim>\<open>search_for_neighbors\<close>: the reach \<open>r\<close> is the value stored in the agent's own cell. The source
  builds a set; the list below holds its elements in the order the comprehension finds them.
\<close>

definition search_for_neighbors :: "grid \<Rightarrow> int \<Rightarrow> int \<Rightarrow> (int \<times> int) list" where
  "search_for_neighbors grid x y =
     (let r = uint (cells grid (x, y));
          min_x = max 0 (x - r);
          max_x = min (fst (shape grid) - 1) (x + r);
          min_y = max 0 (y - r);
          max_y = min (snd (shape grid) - 1) (y + r)
      in filter (\<lambda>(i, j). 0 < cells grid (i, j) \<and> within_reach x y i j r \<and> (x, y) \<noteq> (i, j))
           (List.product (range2 min_x max_x) (range2 min_y max_y)))"

text \<open>
  Placing the agents of one type. A reach from 0 to 255 is stored in the \<^verbatim>\<open>uint8\<close> cell as it
  is, under every numpy release. Outside that range the releases before 2.0 keep the low eight
  bits (a C-style cast), which is what is modelled; from 2.0 on the assignment raises
  \<^verbatim>\<open>OverflowError\<close> instead, which is not modelled, so a statement that nothing is raised is
  made for reaches from 0 to 255 only. The dict \<^verbatim>\<open>loc_to_id\<close> is an association list in
  insertion order; assigning to a key that is present replaces its value in place.
\<close>

fun place_agents ::
  "nat \<Rightarrow> int \<Rightarrow> grid \<Rightarrow> (int \<times> int) list \<Rightarrow> ((int \<times> int) \<times> nat) list \<Rightarrow> nat \<Rightarrow> int list
     \<Rightarrow> (grid \<times> (int \<times> int) list \<times> ((int \<times> int) \<times> nat) list \<times> nat \<times> int list) outcome" where
  "place_agents 0 r grid new_agents loc_to_id current_id rand =
     Returned (grid, new_agents, loc_to_id, current_id, rand)"
| "place_agents (Suc quantity) r grid new_agents loc_to_id current_id rand =
     (case choose_empty_spot grid rand of
        Raised e \<Rightarrow> Raised e
      | Pending \<Rightarrow> Pending
      | Returned (x, y, rand') \<Rightarrow>
          place_agents quantity r
            (grid\<lparr>cells := (cells grid)((x, y) := word_of_int r)\<rparr>)
            (new_agents @ [(x, y)])
            (AList.update (x, y) current_id loc_to_id)
            (current_id + 1)
            rand')"

text \<open>
  The adjacency matrix \<open>M\<close> has \<open>num_nodes\<close> rows and columns; writing outside it raises
  \<^verbatim>\<open>IndexError\<close>.
\<close>

type_synonym matrix = "nat \<Rightarrow> nat \<Rightarrow> 8 word"

definition set_entry :: "nat \<Rightarrow> matrix \<Rightarrow> nat \<Rightarrow> nat \<Rightarrow> error + matrix" where
  "set_entry num_nodes M a b =
     (if a < num_nodes \<and> b < num_nodes then Inr (M(a := (M a)(b := 1))) else Inl IndexError)"

text \<open>The loop over the neighbours of the agent at \<open>loc\<close>.\<close>

fun mark_neighbors ::
  "nat \<Rightarrow> ((int \<times> int) \<times> nat) list \<Rightarrow> int \<times> int \<Rightarrow> matrix \<Rightarrow> (int \<times> int) list \<Rightarrow> error + matrix" where
  "mark_neighbors num_nodes loc_to_id loc M [] = Inr M"
| "mark_neighbors num_nodes loc_to_id loc M (nb # rest) =
     (case dict_get (map_of loc_to_id) loc of
        Inl e \<Rightarrow> Inl e
      | Inr a \<Rightarrow>
          (case dict_get (map_of loc_to_id) nb of
             Inl e \<Rightarrow> Inl e
           | Inr b \<Rightarrow>
               (case set_entry num_nodes M a b of
                  Inl e \<Rightarrow> Inl e
                | Inr M1 \<Rightarrow>
                    (case set_entry num_nodes M1 b a of
                       Inl e \<Rightarrow> Inl e
                     | Inr M2 \<Rightarrow> mark_neighbors num_nodes loc_to_id loc M2 rest))))"

text \<open>The loop over the agents just placed.\<close>

fun connect_agents ::
  "grid \<Rightarrow> nat \<Rightarrow> ((int \<times> int) \<times> nat) list \<Rightarrow> matrix \<Rightarrow> (int \<times> int) list \<Rightarrow> error + matrix" where
  "connect_agents grid num_nodes loc_to_id M [] = Inr M"
| "connect_agents grid num_nodes loc_to_id M ((x, y) # rest) =
     (case mark_neighbors num_nodes loc_to_id (x, y) M (search_for_neighbors grid x y) of
        Inl e \<Rightarrow> Inl e
      | Inr M' \<Rightarrow> connect_agents grid num_nodes loc_to_id M' rest)"

text \<open>The loop over the agent types, largest reach first.\<close>

fun agents_loop ::
  "(agent \<times> nat) list \<Rightarrow> nat \<Rightarrow> grid \<Rightarrow> ((int \<times> int) \<times> nat) list \<Rightarrow> nat \<Rightarrow> matrix \<Rightarrow> int list
     \<Rightarrow> (grid \<times> ((int \<times> int) \<times> nat) list \<times> nat \<times> matrix \<times> int list) outcome" where
  "agents_loop [] num_nodes grid loc_to_id current_id M rand =
     Returned (grid, loc_to_id, current_id, M, rand)"
| "agents_loop ((agent, quantity) # rest) num_nodes grid loc_to_id current_id M rand =
     (case place_agents quantity (reach agent) grid [] loc_to_id current_id rand of
        Raised e \<Rightarrow> Raised e
      | Pending \<Rightarrow> Pending
      | Returned (grid', new_agents, loc_to_id', current_id', rand') \<Rightarrow>
          (case connect_agents grid' num_nodes loc_to_id' M new_agents of
             Inl e \<Rightarrow> Raised e
           | Inr M' \<Rightarrow> agents_loop rest num_nodes grid' loc_to_id' current_id' M' rand'))"

text \<open>
  \<^verbatim>\<open>nx.Graph(M)\<close>: the nodes \<open>0, \<dots>, num_nodes - 1\<close> and an edge for every non-zero entry,
  taken row by row.
\<close>

definition graph_of_matrix :: "nat \<Rightarrow> matrix \<Rightarrow> nat graph" where
  "graph_of_matrix num_nodes M =
     add_edges_from (add_nodes_from empty_graph [0..<num_nodes])
       (concat (map (\<lambda>u. map (Pair u) (filter (\<lambda>v. M u v \<noteq> 0) [0..<num_nodes])) [0..<num_nodes]))"

text \<open>
  \<^verbatim>\<open>nx.is_connected\<close>: the null graph raises; otherwise a breadth-first search from the first
  node is counted against the number of nodes. The search is run for as many rounds as the
  graph has nodes, each round adding the neighbours of what has been reached.
\<close>

fun plain_bfs :: "'a graph \<Rightarrow> nat \<Rightarrow> 'a list \<Rightarrow> 'a list" where
  "plain_bfs g 0 seen = seen"
| "plain_bfs g (Suc k) seen = plain_bfs g k (remdups (seen @ concat (map (adj g) seen)))"

definition is_connected :: "'a graph \<Rightarrow> error + bool" where
  "is_connected g =
     (case nodes g of
        [] \<Rightarrow> Inl NetworkXPointlessConcept
      | source # _ \<Rightarrow> Inr (length (plain_bfs g (length (nodes g)) [source]) = length (nodes g)))"

text \<open>
  One pass of the body of the attempt loop, up to the connectivity test. Besides the graph,
  the layout and the colours it hands back the grid and \<^verbatim>\<open>loc_to_id\<close> it ended with, which
  the statements about one attempt refer to. The layout coordinates are real numbers; the
  rounding of the float quotient is not modelled.
\<close>

type_synonym layout = "(nat \<times> real \<times> real) list"

definition attempt ::
  "(agent \<times> nat) list \<Rightarrow> int \<times> int \<Rightarrow> int list
     \<Rightarrow> (nat graph \<times> layout \<times> color_spec list \<times> grid \<times> ((int \<times> int) \<times> nat) list \<times> int list) outcome" where
  "attempt agent_type_to_quantity grid_size rand =
     (let agents = sort_key (\<lambda>agent_quantity. - reach (fst agent_quantity)) agent_type_to_quantity
      in case zeros grid_size of
           Inl e \<Rightarrow> Raised e
         | Inr grid \<Rightarrow>
             (let num_nodes = sum_list (map snd agent_type_to_quantity)
              in case agents_loop agents num_nodes grid [] 0 (\<lambda>_ _. 0) rand of
                   Raised e \<Rightarrow> Raised e
                 | Pending \<Rightarrow> Pending
                 | Returned (grid', loc_to_id, current_id, M, rand') \<Rightarrow>
                     (let colors = concat (map (\<lambda>(agent, quantity). replicate quantity (color agent))
                                             agent_type_to_quantity);
                          layout = map (\<lambda>((x, y), ident).
                                          (ident, (2 * real_of_int x / real_of_int (fst grid_size) - 1,
                                                 2 * real_of_int y / real_of_int (snd grid_size) - 1)))
                                       loc_to_id;
                          G = graph_of_matrix num_nodes M
                      in Returned (G, layout, colors, grid', loc_to_id, rand'))))"

text \<open>
  The attempt loop: \<open>tries\<close> attempts are left. The result \<open>None\<close> is the failure signal of
  the source.
\<close>

fun attempts ::
  "nat \<Rightarrow> (agent \<times> nat) list \<Rightarrow> int \<times> int \<Rightarrow> bool \<Rightarrow> int list
     \<Rightarrow> (nat graph \<times> layout \<times> color_spec list) option outcome" where
  "attempts 0 agent_type_to_quantity grid_size force_connected rand = Returned None"
| "attempts (Suc tries) agent_type_to_quantity grid_size force_connected rand =
     (case attempt agent_type_to_quantity grid_size rand of
        Raised e \<Rightarrow> Raised e
      | Pending \<Rightarrow> Pending
      | Returned (G, layout, colors, grid, loc_to_id, rand') \<Rightarrow>
          if \<not> force_connected then Returned (Some (G, layout, colors))
          else
            (case is_connected G of
               Inl e \<Rightarrow> Raised e
             | Inr True \<Rightarrow> Returned (Some (G, layout, colors))
             | Inr False \<Rightarrow> attempts tries agent_type_to_quantity grid_size force_connected rand'))"

definition make_social_circles_network ::
  "(agent \<times> nat) list \<Rightarrow> int \<times> int \<Rightarrow> bool \<Rightarrow> int \<Rightarrow> int list
     \<Rightarrow> (nat graph \<times> layout \<times> color_spec list) option outcome" where
  "make_social_circles_network agent_type_to_quantity grid_size force_connected max_tries rand =
     attempts (nat max_tries) agent_type_to_quantity grid_size force_connected rand"

text \<open>
  The first \<open>k\<close> passes of the attempt loop taken by themselves, each starting with the random
  source the one before left: the graphs they built, in order, and the random source after
  the last; \<open>None\<close> when one of them did not return.
\<close>

fun attempt_run ::
  "nat \<Rightarrow> (agent \<times> nat) list \<Rightarrow> int \<times> int \<Rightarrow> int list \<Rightarrow> (nat graph list \<times> int list) option" where
  "attempt_run 0 agent_type_to_quantity grid_size rand = Some ([], rand)"
| "attempt_run (Suc k) agent_type_to_quantity grid_size rand =
     (case attempt agent_type_to_quantity grid_size rand of
        Returned (G, layout, colors, grid, loc_to_id, rand') \<Rightarrow>
          (case attempt_run k agent_type_to_quantity grid_size rand' of
             Some (Gs, rand'') \<Rightarrow> Some (G # Gs, rand'')
           | None \<Rightarrow> None)
      | _ \<Rightarrow> None)"

section \<open>Auxiliary notions for the proofs\<close>

text \<open>
  The invariant of every graph built by the operations above: no node is listed twice,
  adjacency is symmetric, and only nodes of the graph are adjacent.
\<close>

definition wf_graph :: "'a graph \<Rightarrow> bool" where
  "wf_graph g \<longleftrightarrow>
     distinct (nodes g) \<and> sym (edge_rel g) \<and> edge_rel g \<subseteq> set (nodes g) \<times> set (nodes g)"

text \<open>
  Three auxiliary notions for reasoning about the wiring loops: the edges one gate contributes,
  the loops flattened into one pass over a list of (source, destination) pairs, and that list.
\<close>

definition gate_links :: "'a graph \<Rightarrow> 'a graph \<times> 'a graph \<Rightarrow> ('a \<times> 'a) list" where
  "gate_links gate p =
     (let gate_nodes = nodes gate; half = length gate_nodes div 2
      in zip (take half gate_nodes) (nodes (fst p)) @ zip (drop half gate_nodes) (nodes (snd p)))"

fun wire ::
  "'a graph list \<Rightarrow> 'a graph \<times> nat \<Rightarrow> ('a graph \<times> 'a graph) list \<Rightarrow> error + ('a graph \<times> nat)" where
  "wire gates st [] = Inr st"
| "wire gates st ((src_comp, dest_comp) # rest) =
     (case insert_gate gates st src_comp dest_comp of
        Inl e \<Rightarrow> Inl e
      | Inr st' \<Rightarrow> wire gates st' rest)"

definition wiring_plan :: "'a graph list \<Rightarrow> ('a graph \<times> 'a graph) list" where
  "wiring_plan big_comps =
     concat (map (\<lambda>(comp_ind, src_comp). map (Pair src_comp) (drop (comp_ind + 1) big_comps))
                 (enumerate 0 (butlast big_comps)))"

text \<open>A gate fits a pair of components when neither half of it is longer than its component.\<close>

definition fits :: "'a graph \<Rightarrow> 'a graph \<times> 'a graph \<Rightarrow> bool" where
  "fits gate p \<longleftrightarrow> length (nodes gate) div 2 \<le> length (nodes (fst p)) \<and>
      length (nodes gate) - length (nodes gate) div 2 \<le> length (nodes (snd p))"

text \<open>
  The identifier blocks in closed form, and the pairs of component indices in loop order.
\<close>

definition gate_ids :: "int \<Rightarrow> nat \<Rightarrow> int list" where
  "gate_ids gs k = range2 (int k * gs) (int k * gs + gs)"

definition comp_ids :: "nat \<Rightarrow> int \<Rightarrow> int \<Rightarrow> nat \<Rightarrow> int list" where
  "comp_ids G bcs gs c = range2 (int G * gs + int c * bcs) (int G * gs + int c * bcs + bcs)"

definition pair_plan :: "nat \<Rightarrow> (nat \<times> nat) list" where
  "pair_plan m = concat (map (\<lambda>i. map (Pair i) [i + 1..<m]) [0..<m - 1])"

text \<open>The cliques and the gate-to-component edges of the result, in closed form.\<close>

definition gate_graph :: "int \<Rightarrow> nat \<Rightarrow> int graph" where
  "gate_graph gs k = complete_graph (gate_ids gs k)"

definition comp_graph :: "nat \<Rightarrow> int \<Rightarrow> int \<Rightarrow> nat \<Rightarrow> int graph" where
  "comp_graph G bcs gs c = complete_graph (comp_ids G bcs gs c)"

definition links_of :: "nat \<Rightarrow> int \<Rightarrow> int \<Rightarrow> nat \<Rightarrow> (int \<times> int) list" where
  "links_of m bcs gs k =
     gate_links (gate_graph gs k)
       (comp_graph (m choose 2) bcs gs (fst (pair_plan m ! k)),
        comp_graph (m choose 2) bcs gs (snd (pair_plan m ! k)))"

definition all_links :: "nat \<Rightarrow> int \<Rightarrow> int \<Rightarrow> (int \<times> int) list" where
  "all_links m bcs gs = concat (map (links_of m bcs gs) [0..<m choose 2])"

definition master_of :: "nat \<Rightarrow> int \<Rightarrow> int \<Rightarrow> int graph" where
  "master_of m bcs gs =
     add_edges_from
       (union_components (map (gate_graph gs) [0..<m choose 2]
                          @ map (comp_graph (m choose 2) bcs gs) [0..<m]))
       (all_links m bcs gs)"

text \<open>
  The notions the statements about the composer use: a clique of a given size inside a graph,
  cliques that share no node, and cliques between which the graph has no edge.
\<close>

definition is_clique_in :: "'a graph \<Rightarrow> 'a graph \<Rightarrow> nat \<Rightarrow> bool" where
  "is_clique_in g c n \<longleftrightarrow>
     length (nodes c) = n \<and> distinct (nodes c) \<and> set (nodes c) \<subseteq> set (nodes g) \<and>
     (\<forall>u \<in> set (nodes c). \<forall>v \<in> set (nodes c). u \<noteq> v \<longrightarrow>
        (u, v) \<in> edge_rel c \<and> (u, v) \<in> edge_rel g)"

definition disjoint_cliques :: "'a graph list \<Rightarrow> bool" where
  "disjoint_cliques cs \<longleftrightarrow>
     (\<forall>a < length cs. \<forall>b < length cs. a \<noteq> b \<longrightarrow>
        set (nodes (cs ! a)) \<inter> set (nodes (cs ! b)) = {})"

definition no_edge_between :: "'a graph \<Rightarrow> 'a graph list \<Rightarrow> bool" where
  "no_edge_between g cs \<longleftrightarrow>
     (\<forall>a < length cs. \<forall>b < length cs. a \<noteq> b \<longrightarrow>
        (\<forall>u \<in> set (nodes (cs ! a)). \<forall>v \<in> set (nodes (cs ! b)). (u, v) \<notin> edge_rel g))"

definition edges_classified :: "'a graph \<Rightarrow> 'a graph list \<Rightarrow> 'a graph list \<Rightarrow> bool" where
  "edges_classified g gates big_comps \<longleftrightarrow>
     (\<forall>(u, v) \<in> edge_rel g.
        (\<exists>c \<in> set (gates @ big_comps). u \<in> set (nodes c) \<and> v \<in> set (nodes c)) \<or>
        (\<exists>a \<in> set gates. \<exists>c \<in> set big_comps.
           (u \<in> set (nodes a) \<and> v \<in> set (nodes c)) \<or> (v \<in> set (nodes a) \<and> u \<in> set (nodes c))))"

definition one_exit_per_gate_node :: "'a graph \<Rightarrow> 'a graph list \<Rightarrow> bool" where
  "one_exit_per_gate_node g gates \<longleftrightarrow>
     (\<forall>a \<in> set gates. \<forall>u \<in> set (nodes a). \<exists>!v. (u, v) \<in> edge_rel g \<and> v \<notin> set (nodes a))"

text \<open>
  The agent types in the order their agents are placed, one entry per agent: the types sorted
  by descending reach, each repeated as often as its quantity. Entry \<open>k\<close> is the type of the
  agent that receives node identifier \<open>k\<close>.
\<close>

definition placement_order :: "(agent \<times> nat) list \<Rightarrow> agent list" where
  "placement_order agent_type_to_quantity =
     concat (map (\<lambda>(agent, quantity). replicate quantity agent)
               (sort_key (\<lambda>agent_quantity. - reach (fst agent_quantity)) agent_type_to_quantity))"

text \<open>
  Two identifiers are linked rightly when they belong to two occupied cells one of which lies
  within the stored reach of the other.
\<close>

definition edge_ok :: "grid \<Rightarrow> ((int \<times> int) \<times> nat) list \<Rightarrow> nat \<Rightarrow> nat \<Rightarrow> bool" where
  "edge_ok grid loc_to_id a b \<longleftrightarrow>
     (\<exists>ca cb. (ca, a) \<in> set loc_to_id \<and> (cb, b) \<in> set loc_to_id \<and>
        cells grid ca \<noteq> 0 \<and> cells grid cb \<noteq> 0 \<and>
        (within_reach (fst ca) (snd ca) (fst cb) (snd cb) (uint (cells grid ca)) \<or>
         within_reach (fst ca) (snd ca) (fst cb) (snd cb) (uint (cells grid cb))))"

text \<open>
  The invariant of one attempt, with the list of the agents placed so far: the dict has no key
  twice, every occupied cell is a key, every entry holds an identifier already handed out and
  its cell stores the reach of that agent, and every non-zero matrix entry links rightly.
\<close>

definition gen_inv ::
  "grid \<Rightarrow> ((int \<times> int) \<times> nat) list \<Rightarrow> nat \<Rightarrow> matrix \<Rightarrow> agent list \<Rightarrow> bool" where
  "gen_inv grid loc_to_id current_id M placed \<longleftrightarrow>
     distinct (map fst loc_to_id) \<and>
     (\<forall>c. cells grid c \<noteq> 0 \<longrightarrow> c \<in> fst ` set loc_to_id) \<and>
     (\<forall>(c, k) \<in> set loc_to_id.
        k < current_id \<and> cells grid c = word_of_int (reach (placed ! k))) \<and>
     current_id = length placed \<and>
     (\<forall>a b. M a b \<noteq> 0 \<longrightarrow> edge_ok grid loc_to_id a b)"

text \<open>
  When no stored reach is zero, the identifiers in the dict are moreover \<open>0, 1, \<dots>\<close> in
  insertion order and every key is an occupied cell.
\<close>

definition dense_inv :: "grid \<Rightarrow> ((int \<times> int) \<times> nat) list \<Rightarrow> nat \<Rightarrow> bool" where
  "dense_inv grid loc_to_id current_id \<longleftrightarrow>
     map snd loc_to_id = [0..<current_id] \<and> (\<forall>c \<in> fst ` set loc_to_id. cells grid c \<noteq> 0)"

section \<open>Facts about the graph operations\<close>



lemma nodes_add_node: "set (nodes (add_node g n)) = insert n (set (nodes g))"
  by (auto simp: add_node_def)

lemma distinct_add_node: "distinct (nodes g) \<Longrightarrow> distinct (nodes (add_node g n))"
  by (simp add: add_node_def)

lemma adj_add_node: "adj (add_node g n) = adj g"
  by (simp add: add_node_def)

lemma edge_rel_add_node: "edge_rel (add_node g n) = edge_rel g"
  by (simp add: edge_rel_def adj_add_node)

lemma nodes_add_edge: "set (nodes (add_edge g u v)) = insert u (insert v (set (nodes g)))"
  by (auto simp: add_edge_def Let_def nodes_add_node)

lemma distinct_add_edge: "distinct (nodes g) \<Longrightarrow> distinct (nodes (add_edge g u v))"
  by (simp add: add_edge_def Let_def distinct_add_node)

lemma edge_rel_add_edge: "edge_rel (add_edge g u v) = insert (u, v) (insert (v, u) (edge_rel g))"
  by (auto simp: add_edge_def Let_def edge_rel_def adj_add_node split: if_splits)

lemma wf_empty_graph: "wf_graph empty_graph"
  by (simp add: wf_graph_def empty_graph_def edge_rel_def sym_def)

lemma wf_add_node: "wf_graph g \<Longrightarrow> wf_graph (add_node g n)"
  by (auto simp: wf_graph_def distinct_add_node edge_rel_add_node nodes_add_node)

lemma wf_add_edge: "wf_graph g \<Longrightarrow> wf_graph (add_edge g u v)"
  unfolding wf_graph_def
  by (auto simp: distinct_add_edge edge_rel_add_edge nodes_add_edge sym_def)

lemma nodes_add_nodes_from: "set (nodes (add_nodes_from g ns)) = set (nodes g) \<union> set ns"
  unfolding add_nodes_from_def by (induction ns arbitrary: g) (auto simp: nodes_add_node)

lemma edge_rel_add_nodes_from: "edge_rel (add_nodes_from g ns) = edge_rel g"
  unfolding add_nodes_from_def by (induction ns arbitrary: g) (auto simp: edge_rel_add_node)

lemma wf_add_nodes_from: "wf_graph g \<Longrightarrow> wf_graph (add_nodes_from g ns)"
  unfolding add_nodes_from_def by (induction ns arbitrary: g) (auto simp: wf_add_node)

lemma nodes_add_edges_from:
  "set (nodes (add_edges_from g es)) = set (nodes g) \<union> fst ` set es \<union> snd ` set es"
  unfolding add_edges_from_def by (induction es arbitrary: g) (auto simp: nodes_add_edge)

lemma edge_rel_add_edges_from:
  "edge_rel (add_edges_from g es) = edge_rel g \<union> set es \<union> (set es)\<inverse>"
  unfolding add_edges_from_def by (induction es arbitrary: g) (auto simp: edge_rel_add_edge)

lemma wf_add_edges_from: "wf_graph g \<Longrightarrow> wf_graph (add_edges_from g es)"
  unfolding add_edges_from_def by (induction es arbitrary: g) (auto simp: wf_add_edge)

lemma add_edges_from_append:
  "add_edges_from g (xs @ ys) = add_edges_from (add_edges_from g xs) ys"
  by (simp add: add_edges_from_def)

lemma edges_scan_subset: "set (edges_scan g seen ns) \<subseteq> edge_rel g"
  by (induction ns arbitrary: seen) (auto simp: edge_rel_def)

lemma edges_scan_covers:
  "(u, v) \<in> edge_rel g \<Longrightarrow> sym (edge_rel g) \<Longrightarrow> u \<in> set ns \<Longrightarrow> v \<in> set ns \<Longrightarrow>
   u \<notin> set seen \<Longrightarrow> v \<notin> set seen \<Longrightarrow>
   (u, v) \<in> set (edges_scan g seen ns) \<or> (v, u) \<in> set (edges_scan g seen ns)"
proof (induction ns arbitrary: seen)
  case Nil
  then show ?case by simp
next
  case (Cons n ns)
  show ?case
  proof (cases "u = n \<or> v = n")
    case True
    from Cons.prems have "(v, u) \<in> edge_rel g" by (auto dest: symD)
    with True Cons.prems show ?thesis by (auto simp: edge_rel_def)
  next
    case False
    with Cons.prems have "(u, v) \<in> set (edges_scan g (n # seen) ns) \<or> (v, u) \<in> set (edges_scan g (n # seen) ns)"
      by (intro Cons.IH) auto
    then show ?thesis by auto
  qed
qed

lemma edges_sym_closure:
  assumes "wf_graph g"
  shows "set (edges g) \<union> (set (edges g))\<inverse> = edge_rel g"
proof
  have "set (edges g) \<subseteq> edge_rel g" by (simp add: edges_def edges_scan_subset)
  moreover have "sym (edge_rel g)" using assms by (simp add: wf_graph_def)
  ultimately show "set (edges g) \<union> (set (edges g))\<inverse> \<subseteq> edge_rel g"
    by (auto dest: symD)
next
  show "edge_rel g \<subseteq> set (edges g) \<union> (set (edges g))\<inverse>"
  proof
    fix e assume e: "e \<in> edge_rel g"
    obtain u v where uv: "e = (u, v)" by (cases e)
    from assms e uv have "u \<in> set (nodes g)" "v \<in> set (nodes g)" "sym (edge_rel g)"
      by (auto simp: wf_graph_def)
    with e uv have "(u, v) \<in> set (edges g) \<or> (v, u) \<in> set (edges g)"
      unfolding edges_def by (intro edges_scan_covers) auto
    with uv show "e \<in> set (edges g) \<union> (set (edges g))\<inverse>" by auto
  qed
qed

lemma nodes_union_components_aux:
  "set (nodes (foldl (\<lambda>master_graph comp.
              add_edges_from (add_nodes_from master_graph (nodes comp)) (edges comp)) g cs))
   = set (nodes g) \<union> (\<Union>c \<in> set cs. set (nodes c) \<union> fst ` set (edges c) \<union> snd ` set (edges c))"
  by (induction cs arbitrary: g) (auto simp: nodes_add_edges_from nodes_add_nodes_from)

lemma edge_rel_union_components_aux:
  "\<forall>c \<in> set cs. wf_graph c \<Longrightarrow>
   edge_rel (foldl (\<lambda>master_graph comp.
              add_edges_from (add_nodes_from master_graph (nodes comp)) (edges comp)) g cs)
   = edge_rel g \<union> (\<Union>c \<in> set cs. edge_rel c)"
proof (induction cs arbitrary: g)
  case Nil
  then show ?case by simp
next
  case (Cons c cs)
  have "set (edges c) \<union> (set (edges c))\<inverse> = edge_rel c"
    using Cons.prems by (simp add: edges_sym_closure)
  then have "edge_rel (add_edges_from (add_nodes_from g (nodes c)) (edges c)) = edge_rel g \<union> edge_rel c"
    by (auto simp: edge_rel_add_edges_from edge_rel_add_nodes_from)
  with Cons show ?case by (simp add: Un_assoc)
qed

lemma wf_union_components_aux:
  "wf_graph g \<Longrightarrow> wf_graph (foldl (\<lambda>master_graph comp.
              add_edges_from (add_nodes_from master_graph (nodes comp)) (edges comp)) g cs)"
  by (induction cs arbitrary: g) (auto simp: wf_add_edges_from wf_add_nodes_from)

lemma edges_in_nodes: "wf_graph c \<Longrightarrow> fst ` set (edges c) \<union> snd ` set (edges c) \<subseteq> set (nodes c)"
proof -
  assume w: "wf_graph c"
  have "set (edges c) \<subseteq> edge_rel c" by (simp add: edges_def edges_scan_subset)
  with w show ?thesis by (fastforce simp: wf_graph_def)
qed

lemma nodes_union_components:
  "\<forall>c \<in> set cs. wf_graph c \<Longrightarrow> set (nodes (union_components cs)) = (\<Union>c \<in> set cs. set (nodes c))"
  unfolding union_components_def nodes_union_components_aux
  using edges_in_nodes by (fastforce simp: empty_graph_def)

lemma edge_rel_union_components:
  "\<forall>c \<in> set cs. wf_graph c \<Longrightarrow> edge_rel (union_components cs) = (\<Union>c \<in> set cs. edge_rel c)"
  unfolding union_components_def
  by (simp add: edge_rel_union_components_aux) (simp add: edge_rel_def empty_graph_def)

lemma wf_union_components: "wf_graph (union_components cs)"
  unfolding union_components_def by (rule wf_union_components_aux[OF wf_empty_graph])

lemma set_combinations2:
  "distinct xs \<Longrightarrow> set (combinations2 xs) \<union> (set (combinations2 xs))\<inverse> = {(u, v). u \<in> set xs \<and> v \<in> set xs \<and> u \<noteq> v}"
  by (induction xs) auto

lemma nodes_complete_graph: "set (nodes (complete_graph ns)) = set ns"
proof -
  have "fst ` set (combinations2 ns) \<union> snd ` set (combinations2 ns) \<subseteq> set ns"
    by (induction ns) auto
  then show ?thesis
    by (auto simp: complete_graph_def Let_def nodes_add_edges_from nodes_add_nodes_from empty_graph_def)
qed

lemma add_nodes_from_distinct_aux:
  "distinct (nodes g @ ns) \<Longrightarrow> nodes (foldl add_node g ns) = nodes g @ ns"
  by (induction ns arbitrary: g) (auto simp: add_node_def)

lemma nodes_list_add_edges_from:
  "fst ` set es \<union> snd ` set es \<subseteq> set (nodes g) \<Longrightarrow> nodes (add_edges_from g es) = nodes g"
  unfolding add_edges_from_def
  by (induction es arbitrary: g) (auto simp: add_edge_def add_node_def Let_def)

lemma nodes_list_complete_graph: "distinct ns \<Longrightarrow> nodes (complete_graph ns) = ns"
proof -
  assume d: "distinct ns"
  have n: "nodes (add_nodes_from empty_graph ns) = ns"
    using add_nodes_from_distinct_aux[of empty_graph ns] d
    by (simp add: add_nodes_from_def empty_graph_def)
  have "fst ` set (combinations2 ns) \<union> snd ` set (combinations2 ns) \<subseteq> set ns"
    by (induction ns) auto
  then show ?thesis
    by (simp add: complete_graph_def Let_def n nodes_list_add_edges_from)
qed

lemma wf_complete_graph: "wf_graph (complete_graph ns)"
  by (simp add: complete_graph_def Let_def wf_add_edges_from wf_add_nodes_from wf_empty_graph)

lemma edge_rel_complete_graph:
  "distinct ns \<Longrightarrow> edge_rel (complete_graph ns) = {(u, v). u \<in> set ns \<and> v \<in> set ns \<and> u \<noteq> v}"
proof -
  assume d: "distinct ns"
  have e: "edge_rel (empty_graph :: 'a graph) = {}" by (simp add: edge_rel_def empty_graph_def)
  show ?thesis
  proof (cases "1 < length ns")
    case True
    then show ?thesis using set_combinations2[OF d]
      by (simp add: complete_graph_def Let_def edge_rel_add_edges_from edge_rel_add_nodes_from e Un_assoc)
  next
    case False
    then have "ns = [] \<or> (\<exists>x. ns = [x])" by (cases ns) auto
    then show ?thesis
      by (auto simp: complete_graph_def Let_def edge_rel_add_nodes_from e)
  qed
qed


section \<open>The wiring loops as one pass\<close>


lemma connect_nodes_eq:
  "i + length ns \<le> length cs \<Longrightarrow>
   connect_nodes g i ns cs = Inr (add_edges_from g (zip ns (drop i cs)))"
proof (induction ns arbitrary: g i)
  case Nil
  then show ?case by (simp add: add_edges_from_def)
next
  case (Cons node rest)
  then have i: "i < length cs" by simp
  then have d: "drop i cs = cs ! i # drop (Suc i) cs" by (simp add: Cons_nth_drop_Suc)
  from Cons.prems have "Suc i + length rest \<le> length cs" by simp
  from Cons.IH[OF this] i show ?case
    by (simp add: d add_edges_from_def)
qed

lemma insert_gate_eq:
  assumes "ind < length gates"
    and "length (nodes (gates ! ind)) div 2 \<le> length (nodes s)"
    and "length (nodes (gates ! ind)) - length (nodes (gates ! ind)) div 2 \<le> length (nodes d)"
  shows "insert_gate gates (mg, ind) s d
         = Inr (add_edges_from mg (gate_links (gates ! ind) (s, d)), Suc ind)"
proof -
  let ?gn = "nodes (gates ! ind)"
  let ?h = "length ?gn div 2"
  have 1: "connect_nodes mg 0 (take ?h ?gn) (nodes s) = Inr (add_edges_from mg (zip (take ?h ?gn) (nodes s)))"
    using connect_nodes_eq[of 0 "take ?h ?gn" "nodes s" mg] assms(2) by simp
  have 2: "connect_nodes g1 0 (drop ?h ?gn) (nodes d) = Inr (add_edges_from g1 (zip (drop ?h ?gn) (nodes d)))" for g1
    using connect_nodes_eq[of 0 "drop ?h ?gn" "nodes d" g1] assms(3) by simp
  show ?thesis
    using assms(1) by (simp add: insert_gate_def Let_def 1 2 gate_links_def add_edges_from_append)
qed


lemma wire_eq:
  "ind + length plan \<le> length gates \<Longrightarrow>
   \<forall>(gate, p) \<in> set (zip (drop ind gates) plan). fits gate p \<Longrightarrow>
   wire gates (mg, ind) plan
     = Inr (add_edges_from mg (concat (map (\<lambda>(gate, p). gate_links gate p) (zip (drop ind gates) plan))),
            ind + length plan)"
proof (induction plan arbitrary: mg ind)
  case Nil
  then show ?case by (simp add: add_edges_from_def)
next
  case (Cons p plan)
  obtain s d where p: "p = (s, d)" by (cases p)
  from Cons.prems(1) have i: "ind < length gates" by simp
  then have dr: "drop ind gates = gates ! ind # drop (Suc ind) gates"
    by (simp add: Cons_nth_drop_Suc)
  from Cons.prems(2) have f: "fits (gates ! ind) (s, d)"
    and rest: "\<forall>(gate, p) \<in> set (zip (drop (Suc ind) gates) plan). fits gate p"
    by (auto simp: dr p)
  from Cons.prems(1) have "Suc ind + length plan \<le> length gates" by simp
  from Cons.IH[OF this rest] insert_gate_eq[OF i, of s d mg] f
  show ?case by (simp add: p dr fits_def add_edges_from_append)
qed

lemma wire_append:
  "wire gates st (xs @ ys) = (case wire gates st xs of Inl e \<Rightarrow> Inl e | Inr st' \<Rightarrow> wire gates st' ys)"
  by (induction xs arbitrary: st) (auto split: sum.splits)

lemma dest_loop_wire: "dest_loop gates st s ds = wire gates st (map (Pair s) ds)"
  by (induction ds arbitrary: st) (auto split: sum.splits)

lemma src_loop_wire:
  "src_loop gates comps st es
   = wire gates st (concat (map (\<lambda>(comp_ind, src_comp). map (Pair src_comp) (drop (comp_ind + 1) comps)) es))"
  by (induction es arbitrary: st) (auto simp: wire_append dest_loop_wire split: sum.splits)

lemma sum_range2: "sum_list (range2 0 (int m)) = int (m choose 2)"
proof (induction m)
  case 0
  then show ?case by (simp add: range2_def)
next
  case (Suc m)
  have "[0..int (Suc m) - 1] = [0..int m - 1] @ [int m]"
    using upto_rec2[of 0 "int m"] by simp
  with Suc show ?case by (simp add: range2_def choose_two numeral_2_eq_2)
qed

lemma range3_pos:
  assumes "0 < step"
  shows "range3 start (start + int m * step) step = Inr (map (\<lambda>k. start + int k * step) [0..<m])"
proof -
  have "(int m * step + (step - 1)) div step = int m"
    using assms by simp
  then have "(start + int m * step - start + step - 1) div step = int m"
    by (simp add: algebra_simps)
  then show ?thesis using assms by (simp add: range3_def)
qed


section \<open>The identifier blocks and the loop order\<close>


lemma range2_map: "range2 a (a + int n) = map (\<lambda>q. a + int q) [0..<n]"
  unfolding range2_def by (rule nth_equalityI) auto

lemma gate_ids_map: "0 \<le> gs \<Longrightarrow> gate_ids gs k = map (\<lambda>q. int k * gs + int q) [0..<nat gs]"
  using range2_map[of "int k * gs" "nat gs"] by (simp add: gate_ids_def)

lemma comp_ids_map:
  "0 \<le> bcs \<Longrightarrow> comp_ids G bcs gs c = map (\<lambda>q. int G * gs + int c * bcs + int q) [0..<nat bcs]"
  using range2_map[of "int G * gs + int c * bcs" "nat bcs"] by (simp add: comp_ids_def)

lemma gate_node_ids_eq:
  "0 < gs \<Longrightarrow> gate_node_ids (int m) gs = Inr (map (gate_ids gs) [0..<m choose 2])"
  using range3_pos[of gs 0 "m choose 2"]
  by (simp add: gate_node_ids_def sum_range2 gate_ids_def comp_def)

lemma component_node_ids_eq:
  "0 < bcs \<Longrightarrow> component_node_ids G (int m) bcs gs = Inr (map (comp_ids G bcs gs) [0..<m])"
  using range3_pos[of bcs "int G * gs" m]
  by (simp add: component_node_ids_def comp_ids_def comp_def)

lemma gates_of_eq:
  "0 < gs \<Longrightarrow> gates_of (int m) gs = Inr (map (\<lambda>k. complete_graph (gate_ids gs k)) [0..<m choose 2])"
  by (simp add: gates_of_def gate_node_ids_eq comp_def)

lemma big_comps_of_eq:
  "0 < gs \<Longrightarrow> 0 < bcs \<Longrightarrow>
   big_comps_of (int m) bcs gs
     = Inr (map (\<lambda>c. complete_graph (comp_ids (m choose 2) bcs gs c)) [0..<m])"
  by (simp add: big_comps_of_def gate_node_ids_eq component_node_ids_eq comp_def)

lemma wiring_plan_eq:
  "wiring_plan (map C [0..<m]) = map (\<lambda>(i, j). (C i, C j)) (pair_plan m)"
proof -
  have e: "enumerate 0 (butlast (map C [0..<m])) = map (\<lambda>i. (i, C i)) [0..<m - 1]"
    by (rule nth_equalityI) (auto simp: nth_enumerate_eq nth_butlast)
  have d: "drop (i + 1) (map C [0..<m]) = map C [i + 1..<m]" for i
    by (simp add: drop_map)
  show ?thesis
    unfolding wiring_plan_def pair_plan_def e
    by (simp add: map_concat comp_def drop_map)
qed

lemma length_pair_plan: "length (pair_plan m) = m choose 2"
proof -
  have "length (pair_plan m) = (\<Sum>i<m - 1. m - Suc i)"
    by (simp add: pair_plan_def length_concat comp_def interv_sum_list_conv_sum_set_nat atLeast0LessThan)
  also have "\<dots> = (\<Sum>i<m - 1. (m - 1) - i)"
    by (rule sum.cong) auto
  also have "\<dots> = (\<Sum>i<m - 1. Suc ((m - 1) - Suc i))"
    by (rule sum.cong) auto
  also have "\<dots> = (\<Sum>i<m - 1. Suc i)"
    by (rule sum.nat_diff_reindex)
  also have "\<dots> = (m choose 2)"
  proof (induction m)
    case 0
    then show ?case by simp
  next
    case (Suc m)
    show ?case
    proof (cases m)
      case 0
      then show ?thesis by simp
    next
      case (Suc k)
      with Suc.IH show ?thesis by (simp add: choose_two numeral_2_eq_2)
    qed
  qed
  finally show ?thesis .
qed

lemma set_pair_plan: "set (pair_plan m) = {(i, j). i < j \<and> j < m}"
proof -
  have "\<exists>x\<in>{0..<m - Suc 0}. (a, b) \<in> Pair x ` {Suc x..<m}" if "a < b" "b < m" for a b
    using that by (intro bexI[of _ a]) auto
  then show ?thesis by (auto simp: pair_plan_def)
qed

lemma zip_map_upt:
  "length P = G \<Longrightarrow> zip (map f [0..<G]) (map h P) = map (\<lambda>k. (f k, h (P ! k))) [0..<G]"
  by (rule nth_equalityI) auto


section \<open>The composer's result in closed form\<close>


lemma distinct_range2: "distinct (range2 a b)"
  by (simp add: range2_def)

lemma nodes_gate_graph: "nodes (gate_graph gs k) = gate_ids gs k"
  by (simp add: gate_graph_def gate_ids_def nodes_list_complete_graph distinct_range2)

lemma nodes_comp_graph: "nodes (comp_graph G bcs gs c) = comp_ids G bcs gs c"
  by (simp add: comp_graph_def comp_ids_def nodes_list_complete_graph distinct_range2)

lemma length_gate_ids: "length (gate_ids gs k) = nat gs"
  by (simp add: gate_ids_def range2_def)

lemma length_comp_ids: "length (comp_ids G bcs gs c) = nat bcs"
  by (simp add: comp_ids_def range2_def)

lemma make_eq:
  assumes "0 < gs" "0 < bcs" "nat gs div 2 \<le> nat bcs" "nat gs - nat gs div 2 \<le> nat bcs"
  shows "make_complete_clique_gate_graph (int m) bcs gs = Inr (master_of m bcs gs)"
proof -
  let ?G = "m choose 2"
  let ?gates = "map (gate_graph gs) [0..<?G]"
  let ?comps = "map (comp_graph ?G bcs gs) [0..<m]"
  let ?U = "union_components (?gates @ ?comps)"
  let ?plan = "map (\<lambda>(i, j). (comp_graph ?G bcs gs i, comp_graph ?G bcs gs j)) (pair_plan m)"
  have g: "gates_of (int m) gs = Inr ?gates"
    using assms(1) by (simp add: gates_of_eq gate_graph_def)
  have c: "big_comps_of (int m) bcs gs = Inr ?comps"
    using assms(1,2) by (simp add: big_comps_of_eq comp_graph_def)
  have s: "src_loop ?gates ?comps (?U, 0) (enumerate 0 (butlast ?comps)) = wire ?gates (?U, 0) ?plan"
    unfolding src_loop_wire wiring_plan_def[symmetric] wiring_plan_eq ..
  have z: "zip ?gates ?plan
           = map (\<lambda>k. (gate_graph gs k, comp_graph ?G bcs gs (fst (pair_plan m ! k)),
                        comp_graph ?G bcs gs (snd (pair_plan m ! k)))) [0..<?G]"
    using zip_map_upt[of "pair_plan m" ?G "gate_graph gs"
        "\<lambda>(i, j). (comp_graph ?G bcs gs i, comp_graph ?G bcs gs j)"]
    by (simp add: length_pair_plan case_prod_beta)
  have f: "\<forall>(gate, p) \<in> set (zip (drop 0 ?gates) ?plan). fits gate p"
    unfolding drop_0 z using assms(3,4)
    by (auto simp: fits_def nodes_gate_graph nodes_comp_graph length_gate_ids length_comp_ids)
  have "0 + length ?plan \<le> length ?gates" by (simp add: length_pair_plan)
  from wire_eq[OF this f, of ?U]
  have w: "wire ?gates (?U, 0) ?plan = Inr (master_of m bcs gs, ?G)"
    unfolding drop_0 z
    by (simp add: master_of_def all_links_def links_of_def[abs_def] comp_def length_pair_plan)
  show ?thesis
    unfolding make_complete_clique_gate_graph_def g c by (simp add: s w)
qed

lemma block_cover:
  "0 < s \<Longrightarrow> (\<Union>k<N. {a + int k * s..<a + int k * s + s}) = {a..<a + int N * s}"
proof (induction N)
  case 0
  then show ?case by simp
next
  case (Suc N)
  have u: "{a..<a + t} \<union> {a + t..<a + t + s} = {a..<a + t + s}" if "0 \<le> t" for t
    using that Suc.prems by auto
  have "0 \<le> int N * s" using Suc.prems by simp
  from u[OF this]
  have "{a..<a + int N * s} \<union> {a + int N * s..<a + int N * s + s} = {a..<a + int (Suc N) * s}"
    by (simp add: algebra_simps)
  with Suc show ?case by (simp add: lessThan_Suc Un_commute)
qed

lemma block_disjoint:
  assumes "0 < s" "x \<in> {a + int k * s..<a + int k * s + s}" "x \<in> {a + int k' * s..<a + int k' * s + s}"
  shows "k = k'"
proof -
  have "False" if "i < j" "x < a + int i * s + s" "a + int j * s \<le> x" for i j :: nat
  proof -
    from that(1) have "int i + 1 \<le> int j" by simp
    then have "(int i + 1) * s \<le> int j * s" using assms(1) by (intro mult_right_mono) auto
    with that(2,3) show False by (simp add: algebra_simps)
  qed
  from this[of k k'] this[of k' k] assms(2,3) show ?thesis
    by (cases k k' rule: linorder_cases) auto
qed


section \<open>Blocks of identifiers and the gate links\<close>


lemma set_gate_ids: "set (gate_ids gs k) = {int k * gs..<int k * gs + gs}"
  by (auto simp: gate_ids_def range2_def)

lemma set_comp_ids:
  "set (comp_ids G bcs gs c) = {int G * gs + int c * bcs..<int G * gs + int c * bcs + bcs}"
  by (auto simp: comp_ids_def range2_def)

lemma distinct_gate_ids: "distinct (gate_ids gs k)"
  by (simp add: gate_ids_def distinct_range2)

lemma distinct_comp_ids: "distinct (comp_ids G bcs gs c)"
  by (simp add: comp_ids_def distinct_range2)

lemma gates_cover: "0 < gs \<Longrightarrow> (\<Union>k<G. set (gate_ids gs k)) = {0..<int G * gs}"
  using block_cover[of gs 0 G] by (simp add: set_gate_ids)

lemma comps_cover:
  "0 < bcs \<Longrightarrow> (\<Union>c<m. set (comp_ids G bcs gs c)) = {int G * gs..<int G * gs + int m * bcs}"
  using block_cover[of bcs "int G * gs" m] by (simp add: set_comp_ids)

lemma gate_ids_disjoint:
  "0 < gs \<Longrightarrow> x \<in> set (gate_ids gs k) \<Longrightarrow> x \<in> set (gate_ids gs k') \<Longrightarrow> k = k'"
  using block_disjoint[of gs x 0 k k'] by (simp add: set_gate_ids)

lemma comp_ids_disjoint:
  "0 < bcs \<Longrightarrow> x \<in> set (comp_ids G bcs gs c) \<Longrightarrow> x \<in> set (comp_ids G bcs gs c') \<Longrightarrow> c = c'"
  using block_disjoint[of bcs x "int G * gs" c c'] by (simp add: set_comp_ids)

lemma gate_comp_disjoint:
  assumes "0 < gs" "0 < bcs" "k < G" "x \<in> set (gate_ids gs k)" "x \<in> set (comp_ids G bcs gs c)"
  shows False
proof -
  from assms(1,3,4) have "x \<in> {0..<int G * gs}"
    using gates_cover[of gs G] by blast
  moreover from assms(5) have "int G * gs + int c * bcs \<le> x" by (simp add: set_comp_ids)
  moreover have "0 \<le> int c * bcs" using assms(2) by simp
  ultimately show False by simp
qed

lemma pair_plan_nth:
  "k < m choose 2 \<Longrightarrow> fst (pair_plan m ! k) < snd (pair_plan m ! k) \<and> snd (pair_plan m ! k) < m"
proof -
  assume "k < m choose 2"
  then have "pair_plan m ! k \<in> set (pair_plan m)" by (simp add: length_pair_plan)
  then show ?thesis by (auto simp: set_pair_plan)
qed

lemma links_of_zip:
  assumes "nat gs div 2 \<le> nat bcs"
  shows "links_of m bcs gs k
         = zip (gate_ids gs k)
               (take (nat gs div 2) (comp_ids (m choose 2) bcs gs (fst (pair_plan m ! k)))
                @ comp_ids (m choose 2) bcs gs (snd (pair_plan m ! k)))"
proof -
  let ?gn = "gate_ids gs k"
  let ?h = "nat gs div 2"
  let ?c1 = "comp_ids (m choose 2) bcs gs (fst (pair_plan m ! k))"
  let ?c2 = "comp_ids (m choose 2) bcs gs (snd (pair_plan m ! k))"
  have a: "zip (take ?h ?gn) ?c1 = zip (take ?h ?gn) (take ?h ?c1)"
    by (rule nth_equalityI) (auto simp: length_gate_ids length_comp_ids)
  have "length (take ?h ?gn) = length (take ?h ?c1)"
    using assms by (simp add: length_gate_ids length_comp_ids)
  then have "zip (take ?h ?gn @ drop ?h ?gn) (take ?h ?c1 @ ?c2)
        = zip (take ?h ?gn) (take ?h ?c1) @ zip (drop ?h ?gn) ?c2"
    by (rule zip_append)
  then have "zip ?gn (take ?h ?c1 @ ?c2) = zip (take ?h ?gn) ?c1 @ zip (drop ?h ?gn) ?c2"
    by (simp only: append_take_drop_id a)
  then show ?thesis
    by (simp only: links_of_def gate_links_def Let_def nodes_gate_graph nodes_comp_graph
        length_gate_ids fst_conv snd_conv)
qed

lemma links_of_subset:
  assumes "nat gs div 2 \<le> nat bcs" "(u, v) \<in> set (links_of m bcs gs k)"
  shows "u \<in> set (gate_ids gs k) \<and>
         (v \<in> set (comp_ids (m choose 2) bcs gs (fst (pair_plan m ! k)))
          \<or> v \<in> set (comp_ids (m choose 2) bcs gs (snd (pair_plan m ! k))))"
proof -
  let ?c1 = "comp_ids (m choose 2) bcs gs (fst (pair_plan m ! k))"
  let ?c2 = "comp_ids (m choose 2) bcs gs (snd (pair_plan m ! k))"
  from assms(2) have z: "(u, v) \<in> set (zip (gate_ids gs k) (take (nat gs div 2) ?c1 @ ?c2))"
    unfolding links_of_zip[OF assms(1)] .
  then have "u \<in> set (gate_ids gs k)" by (rule set_zip_leftD)
  moreover from z have "v \<in> set (take (nat gs div 2) ?c1 @ ?c2)" by (rule set_zip_rightD)
  then have "v \<in> set ?c1 \<or> v \<in> set ?c2" by (auto dest: in_set_takeD)
  ultimately show ?thesis by simp
qed

lemma zip_functional:
  assumes "distinct xs" "(u, v) \<in> set (zip xs ys)" "(u, v') \<in> set (zip xs ys)"
  shows "v = v'"
proof -
  from assms(2) obtain i where i: "i < length xs" "i < length ys" "xs ! i = u" "ys ! i = v"
    by (auto simp: set_zip)
  from assms(3) obtain j where j: "j < length xs" "j < length ys" "xs ! j = u" "ys ! j = v'"
    by (auto simp: set_zip)
  from i j have "i = j" using nth_eq_iff_index_eq[OF assms(1), of i j] by simp
  with i j show ?thesis by simp
qed

lemma zip_total:
  assumes "length xs \<le> length ys" "u \<in> set xs"
  shows "\<exists>v. (u, v) \<in> set (zip xs ys)"
proof -
  from assms(2) obtain i where "i < length xs" "xs ! i = u" by (auto simp: in_set_conv_nth)
  with assms(1) have "(u, ys ! i) \<in> set (zip xs ys)" by (auto simp: set_zip)
  then show ?thesis ..
qed

lemma links_of_functional:
  "nat gs div 2 \<le> nat bcs \<Longrightarrow> (u, v) \<in> set (links_of m bcs gs k) \<Longrightarrow>
   (u, v') \<in> set (links_of m bcs gs k) \<Longrightarrow> v = v'"
  unfolding links_of_zip by (rule zip_functional[OF distinct_gate_ids])

lemma links_of_total:
  assumes "nat gs div 2 \<le> nat bcs" "nat gs - nat gs div 2 \<le> nat bcs" "u \<in> set (gate_ids gs k)"
  shows "\<exists>v. (u, v) \<in> set (links_of m bcs gs k)"
  unfolding links_of_zip[OF assms(1)]
proof (rule zip_total)
  show "length (gate_ids gs k)
        \<le> length (take (nat gs div 2) (comp_ids (m choose 2) bcs gs (fst (pair_plan m ! k)))
                  @ comp_ids (m choose 2) bcs gs (snd (pair_plan m ! k)))"
  proof -
    have "nat gs \<le> nat gs div 2 + nat bcs" using assms(2) by linarith
    with assms(1) show ?thesis by (simp add: length_gate_ids length_comp_ids)
  qed
  show "u \<in> set (gate_ids gs k)" by (rule assms(3))
qed

lemma set_all_links: "set (all_links m bcs gs) = (\<Union>k<m choose 2. set (links_of m bcs gs k))"
  by (auto simp: all_links_def)


section \<open>Nodes and edges of the composed graph\<close>


lemma wf_master: "wf_graph (master_of m bcs gs)"
  by (simp add: master_of_def wf_add_edges_from wf_union_components)

lemma edge_rel_gate_graph:
  "edge_rel (gate_graph gs k) = {(u, v). u \<in> set (gate_ids gs k) \<and> v \<in> set (gate_ids gs k) \<and> u \<noteq> v}"
  by (simp add: gate_graph_def edge_rel_complete_graph distinct_gate_ids)

lemma edge_rel_comp_graph:
  "edge_rel (comp_graph G bcs gs c)
   = {(u, v). u \<in> set (comp_ids G bcs gs c) \<and> v \<in> set (comp_ids G bcs gs c) \<and> u \<noteq> v}"
  by (simp add: comp_graph_def edge_rel_complete_graph distinct_comp_ids)

lemma edge_rel_master:
  "edge_rel (master_of m bcs gs)
   = (\<Union>k<m choose 2. edge_rel (gate_graph gs k))
     \<union> (\<Union>c<m. edge_rel (comp_graph (m choose 2) bcs gs c))
     \<union> set (all_links m bcs gs) \<union> (set (all_links m bcs gs))\<inverse>"
proof -
  have "\<forall>c \<in> set (map (gate_graph gs) [0..<m choose 2] @ map (comp_graph (m choose 2) bcs gs) [0..<m]).
          wf_graph c"
    by (auto simp: gate_graph_def comp_graph_def wf_complete_graph)
  from edge_rel_union_components[OF this] show ?thesis
    by (simp add: master_of_def edge_rel_add_edges_from atLeast0LessThan)
qed

lemma all_links_endpoints:
  assumes "0 < gs" "0 < bcs" "nat gs div 2 \<le> nat bcs" "(u, v) \<in> set (all_links m bcs gs)"
  shows "u \<in> {0..<int (m choose 2) * gs}"
    and "v \<in> {int (m choose 2) * gs..<int (m choose 2) * gs + int m * bcs}"
proof -
  from assms(4) obtain k where k: "k < m choose 2" "(u, v) \<in> set (links_of m bcs gs k)"
    by (auto simp: set_all_links)
  from links_of_subset[OF assms(3) k(2)]
  have u: "u \<in> set (gate_ids gs k)"
    and v: "v \<in> set (comp_ids (m choose 2) bcs gs (fst (pair_plan m ! k)))
          \<or> v \<in> set (comp_ids (m choose 2) bcs gs (snd (pair_plan m ! k)))"
    by simp_all
  from u k(1) show "u \<in> {0..<int (m choose 2) * gs}"
    using gates_cover[OF assms(1), of "m choose 2"] by blast
  from pair_plan_nth[OF k(1)] have "fst (pair_plan m ! k) < m" "snd (pair_plan m ! k) < m"
    by simp_all
  with v show "v \<in> {int (m choose 2) * gs..<int (m choose 2) * gs + int m * bcs}"
    using comps_cover[OF assms(2), where m=m and G="m choose 2" and gs=gs] by blast
qed

lemma nodes_master:
  assumes "0 < gs" "0 < bcs" "nat gs div 2 \<le> nat bcs"
  shows "set (nodes (master_of m bcs gs)) = {0..<int (m choose 2) * gs + int m * bcs}"
proof -
  let ?G = "m choose 2"
  have w: "\<forall>c \<in> set (map (gate_graph gs) [0..<?G] @ map (comp_graph ?G bcs gs) [0..<m]). wf_graph c"
    by (auto simp: gate_graph_def comp_graph_def wf_complete_graph)
  have u: "set (nodes (union_components (map (gate_graph gs) [0..<?G] @ map (comp_graph ?G bcs gs) [0..<m])))
        = (\<Union>k<?G. set (gate_ids gs k)) \<union> (\<Union>c<m. set (comp_ids ?G bcs gs c))"
    unfolding nodes_union_components[OF w]
    by (simp add: nodes_gate_graph nodes_comp_graph atLeast0LessThan)
  have un: "{0..<int ?G * gs} \<union> {int ?G * gs..<int ?G * gs + int m * bcs}
        = {0..<int ?G * gs + int m * bcs}"
  proof (rule ivl_disj_un_two)
    show "0 \<le> int ?G * gs" using assms(1) by simp
    have "0 \<le> int m * bcs" using assms(2) by simp
    then show "int ?G * gs \<le> int ?G * gs + int m * bcs" by simp
  qed
  have f: "fst ` set (all_links m bcs gs) \<subseteq> {0..<int ?G * gs}"
  proof
    fix x assume "x \<in> fst ` set (all_links m bcs gs)"
    then obtain y where "(x, y) \<in> set (all_links m bcs gs)" by force
    then show "x \<in> {0..<int ?G * gs}" by (rule all_links_endpoints(1)[OF assms])
  qed
  have s: "snd ` set (all_links m bcs gs) \<subseteq> {int ?G * gs..<int ?G * gs + int m * bcs}"
  proof
    fix y assume "y \<in> snd ` set (all_links m bcs gs)"
    then obtain x where "(x, y) \<in> set (all_links m bcs gs)" by force
    then show "y \<in> {int ?G * gs..<int ?G * gs + int m * bcs}"
      by (rule all_links_endpoints(2)[OF assms])
  qed
  have "set (nodes (master_of m bcs gs))
        = {0..<int ?G * gs} \<union> {int ?G * gs..<int ?G * gs + int m * bcs}
          \<union> fst ` set (all_links m bcs gs) \<union> snd ` set (all_links m bcs gs)"
    unfolding master_of_def nodes_add_edges_from u
    by (simp only: gates_cover[OF assms(1)] comps_cover[OF assms(2)])
  moreover have "A \<union> B \<union> F \<union> S = C" if "A \<union> B = C" "F \<subseteq> A" "S \<subseteq> B"
    for A B C F S :: "int set"
    using that by blast
  from this[OF un f s] have "{0..<int ?G * gs} \<union> {int ?G * gs..<int ?G * gs + int m * bcs}
          \<union> fst ` set (all_links m bcs gs) \<union> snd ` set (all_links m bcs gs)
        = {0..<int ?G * gs + int m * bcs}" .
  ultimately show ?thesis by (rule trans)
qed

lemma length_nodes_master:
  assumes "0 < gs" "0 < bcs" "nat gs div 2 \<le> nat bcs"
  shows "int (length (nodes (master_of m bcs gs))) = int m * bcs + int (m choose 2) * gs"
proof -
  have "distinct (nodes (master_of m bcs gs))" using wf_master by (simp add: wf_graph_def)
  then have "length (nodes (master_of m bcs gs)) = card (set (nodes (master_of m bcs gs)))"
    by (simp add: distinct_card)
  also have "\<dots> = nat (int (m choose 2) * gs + int m * bcs)"
    unfolding nodes_master[OF assms] by simp
  finally show ?thesis using assms(1,2) by simp
qed


section \<open>Which nodes the composed graph joins\<close>


lemma master_edge_cases:
  assumes "(u, v) \<in> edge_rel (master_of m bcs gs)"
  shows "(\<exists>k<m choose 2. u \<in> set (gate_ids gs k) \<and> v \<in> set (gate_ids gs k) \<and> u \<noteq> v)
       \<or> (\<exists>c<m. u \<in> set (comp_ids (m choose 2) bcs gs c) \<and> v \<in> set (comp_ids (m choose 2) bcs gs c) \<and> u \<noteq> v)
       \<or> (\<exists>k<m choose 2. (u, v) \<in> set (links_of m bcs gs k))
       \<or> (\<exists>k<m choose 2. (v, u) \<in> set (links_of m bcs gs k))"
  using assms unfolding edge_rel_master edge_rel_gate_graph edge_rel_comp_graph set_all_links
  by auto

lemma link_ends:
  assumes "0 < gs" "0 < bcs" "nat gs div 2 \<le> nat bcs" "k < m choose 2"
    and "(u, v) \<in> set (links_of m bcs gs k)"
  shows "u \<in> set (gate_ids gs k)" and "\<exists>c<m. v \<in> set (comp_ids (m choose 2) bcs gs c)"
proof -
  from links_of_subset[OF assms(3,5)]
  have u: "u \<in> set (gate_ids gs k)"
    and v: "v \<in> set (comp_ids (m choose 2) bcs gs (fst (pair_plan m ! k)))
          \<or> v \<in> set (comp_ids (m choose 2) bcs gs (snd (pair_plan m ! k)))"
    by simp_all
  show "u \<in> set (gate_ids gs k)" by (rule u)
  from pair_plan_nth[OF assms(4)] have "fst (pair_plan m ! k) < m" "snd (pair_plan m ! k) < m"
    by simp_all
  with v show "\<exists>c<m. v \<in> set (comp_ids (m choose 2) bcs gs c)" by blast
qed

lemma no_edge_between_comps:
  assumes "0 < gs" "0 < bcs" "nat gs div 2 \<le> nat bcs"
    and "a \<noteq> b" "u \<in> set (comp_ids (m choose 2) bcs gs a)" "v \<in> set (comp_ids (m choose 2) bcs gs b)"
  shows "(u, v) \<notin> edge_rel (master_of m bcs gs)"
proof
  assume "(u, v) \<in> edge_rel (master_of m bcs gs)"
  from master_edge_cases[OF this] show False
  proof (elim disjE exE conjE)
    fix k assume "k < m choose 2" "u \<in> set (gate_ids gs k)"
    then show False using gate_comp_disjoint[OF assms(1,2) _ _ assms(5)] by blast
  next
    fix c assume "u \<in> set (comp_ids (m choose 2) bcs gs c)" "v \<in> set (comp_ids (m choose 2) bcs gs c)"
    then have "c = a" "c = b"
      using comp_ids_disjoint[OF assms(2) _ assms(5)] comp_ids_disjoint[OF assms(2) _ assms(6)]
      by blast+
    with assms(4) show False by simp
  next
    fix k assume k: "k < m choose 2" "(u, v) \<in> set (links_of m bcs gs k)"
    from link_ends(1)[OF assms(1,2,3) k] show False
      using gate_comp_disjoint[OF assms(1,2) k(1) _ assms(5)] by blast
  next
    fix k assume k: "k < m choose 2" "(v, u) \<in> set (links_of m bcs gs k)"
    from link_ends(1)[OF assms(1,2,3) k] show False
      using gate_comp_disjoint[OF assms(1,2) k(1) _ assms(6)] by blast
  qed
qed

lemma no_edge_between_gates:
  assumes "0 < gs" "0 < bcs" "nat gs div 2 \<le> nat bcs"
    and "a \<noteq> b" "a < m choose 2" "b < m choose 2"
    and "u \<in> set (gate_ids gs a)" "v \<in> set (gate_ids gs b)"
  shows "(u, v) \<notin> edge_rel (master_of m bcs gs)"
proof
  assume "(u, v) \<in> edge_rel (master_of m bcs gs)"
  from master_edge_cases[OF this] show False
  proof (elim disjE exE conjE)
    fix k assume "u \<in> set (gate_ids gs k)" "v \<in> set (gate_ids gs k)"
    then have "k = a" "k = b"
      using gate_ids_disjoint[OF assms(1) _ assms(7)] gate_ids_disjoint[OF assms(1) _ assms(8)]
      by blast+
    with assms(4) show False by simp
  next
    fix c assume "u \<in> set (comp_ids (m choose 2) bcs gs c)"
    then show False using gate_comp_disjoint[OF assms(1,2,5,7)] by blast
  next
    fix k assume k: "k < m choose 2" "(u, v) \<in> set (links_of m bcs gs k)"
    from link_ends(2)[OF assms(1,2,3) k] show False
      using gate_comp_disjoint[OF assms(1,2,6,8)] by blast
  next
    fix k assume k: "k < m choose 2" "(v, u) \<in> set (links_of m bcs gs k)"
    from link_ends(2)[OF assms(1,2,3) k] show False
      using gate_comp_disjoint[OF assms(1,2,5,7)] by blast
  qed
qed

lemma gate_node_one_exit:
  assumes "0 < gs" "0 < bcs" "nat gs div 2 \<le> nat bcs" "nat gs - nat gs div 2 \<le> nat bcs"
    and "k < m choose 2" "u \<in> set (gate_ids gs k)"
  shows "\<exists>!v. (u, v) \<in> edge_rel (master_of m bcs gs) \<and> v \<notin> set (gate_ids gs k)"
proof -
  from links_of_total[OF assms(3,4,6)] obtain v where v: "(u, v) \<in> set (links_of m bcs gs k)"
    by blast
  from link_ends(2)[OF assms(1,2,3,5) v] obtain c where c: "v \<in> set (comp_ids (m choose 2) bcs gs c)"
    by blast
  have out: "v \<notin> set (gate_ids gs k)"
    using gate_comp_disjoint[OF assms(1,2,5) _ c] by blast
  have e: "(u, v) \<in> edge_rel (master_of m bcs gs)"
    unfolding edge_rel_master set_all_links using v assms(5) by blast
  have uniq: "v' = v" if "(u, v') \<in> edge_rel (master_of m bcs gs)" "v' \<notin> set (gate_ids gs k)" for v'
    using master_edge_cases[OF that(1)]
  proof (elim disjE exE conjE)
    fix k' assume "u \<in> set (gate_ids gs k')" "v' \<in> set (gate_ids gs k')"
    moreover from this(1) have "k' = k" by (rule gate_ids_disjoint[OF assms(1) _ assms(6)])
    ultimately show ?thesis using that(2) by simp
  next
    fix c' assume "u \<in> set (comp_ids (m choose 2) bcs gs c')"
    then show ?thesis using gate_comp_disjoint[OF assms(1,2,5,6)] by blast
  next
    fix k' assume k': "k' < m choose 2" "(u, v') \<in> set (links_of m bcs gs k')"
    from link_ends(1)[OF assms(1,2,3) k'] have "k' = k"
      by (rule gate_ids_disjoint[OF assms(1) _ assms(6)])
    with k'(2) v show ?thesis using links_of_functional[OF assms(3)] by blast
  next
    fix k' assume k': "k' < m choose 2" "(v', u) \<in> set (links_of m bcs gs k')"
    from link_ends(2)[OF assms(1,2,3) k'] show ?thesis
      using gate_comp_disjoint[OF assms(1,2,5,6)] by blast
  qed
  from e out uniq show ?thesis by blast
qed


section \<open>Paths in the composed graph\<close>


lemma gate_touches:
  assumes "0 < gs" "0 < bcs" "nat gs div 2 \<le> nat bcs" "0 < nat gs div 2"
  shows "\<exists>u\<in>set (gate_ids gs k). \<exists>v\<in>set (comp_ids (m choose 2) bcs gs (fst (pair_plan m ! k))).
           (u, v) \<in> set (links_of m bcs gs k)"
    and "\<exists>u\<in>set (gate_ids gs k). \<exists>v\<in>set (comp_ids (m choose 2) bcs gs (snd (pair_plan m ! k))).
           (u, v) \<in> set (links_of m bcs gs k)"
proof -
  let ?gn = "gate_ids gs k"
  let ?h = "nat gs div 2"
  let ?c1 = "comp_ids (m choose 2) bcs gs (fst (pair_plan m ! k))"
  let ?c2 = "comp_ids (m choose 2) bcs gs (snd (pair_plan m ! k))"
  let ?ps = "take ?h ?c1 @ ?c2"
  have lt: "length (take ?h ?c1) = ?h" using assms(3) by (simp add: length_comp_ids)
  have lg: "length ?gn = nat gs" by (simp add: length_gate_ids)
  have lp: "length ?ps = ?h + nat bcs" using lt by (simp add: length_comp_ids)
  have b: "0 < nat bcs" using assms(2) by simp
  have hg: "?h < nat gs" using assms(1) by simp
  have z: "(?gn ! i, ?ps ! i) \<in> set (zip ?gn ?ps)" if "i < nat gs" "i < ?h + nat bcs" for i
    using that lg lp by (auto simp: set_zip)
  have p0: "?ps ! 0 = ?c1 ! 0" using assms(4) lt by (simp add: nth_append)
  have ph: "?ps ! ?h = ?c2 ! 0" using lt by (simp add: nth_append)
  have "(?gn ! 0, ?c1 ! 0) \<in> set (links_of m bcs gs k)"
    using z[of 0] assms(1,4) unfolding links_of_zip[OF assms(3)] p0 by simp
  moreover have "?gn ! 0 \<in> set ?gn" using assms(1) lg by (intro nth_mem) simp
  moreover have "?c1 ! 0 \<in> set ?c1" using b by (intro nth_mem) (simp add: length_comp_ids)
  ultimately show "\<exists>u\<in>set ?gn. \<exists>v\<in>set ?c1. (u, v) \<in> set (links_of m bcs gs k)" by blast
  have "(?gn ! ?h, ?c2 ! 0) \<in> set (links_of m bcs gs k)"
    using z[of ?h] hg b unfolding links_of_zip[OF assms(3)] ph by simp
  moreover have "?gn ! ?h \<in> set ?gn" using hg lg by (intro nth_mem) simp
  moreover have "?c2 ! 0 \<in> set ?c2" using b by (intro nth_mem) (simp add: length_comp_ids)
  ultimately show "\<exists>u\<in>set ?gn. \<exists>v\<in>set ?c2. (u, v) \<in> set (links_of m bcs gs k)" by blast
qed

lemma gate_clique_path:
  "k < m choose 2 \<Longrightarrow> u \<in> set (gate_ids gs k) \<Longrightarrow> v \<in> set (gate_ids gs k) \<Longrightarrow>
   (u, v) \<in> (edge_rel (master_of m bcs gs))\<^sup>*"
proof (cases "u = v")
  case True
  then show ?thesis by simp
next
  case False
  assume "k < m choose 2" "u \<in> set (gate_ids gs k)" "v \<in> set (gate_ids gs k)"
  with False have "(u, v) \<in> edge_rel (master_of m bcs gs)"
    unfolding edge_rel_master edge_rel_gate_graph by blast
  then show ?thesis by (rule r_into_rtrancl)
qed

lemma comp_clique_path:
  "c < m \<Longrightarrow> u \<in> set (comp_ids (m choose 2) bcs gs c) \<Longrightarrow> v \<in> set (comp_ids (m choose 2) bcs gs c) \<Longrightarrow>
   (u, v) \<in> (edge_rel (master_of m bcs gs))\<^sup>*"
proof (cases "u = v")
  case True
  then show ?thesis by simp
next
  case False
  assume "c < m" "u \<in> set (comp_ids (m choose 2) bcs gs c)" "v \<in> set (comp_ids (m choose 2) bcs gs c)"
  with False have "(u, v) \<in> edge_rel (master_of m bcs gs)"
    unfolding edge_rel_master edge_rel_comp_graph by blast
  then show ?thesis by (rule r_into_rtrancl)
qed

lemma link_path:
  "k < m choose 2 \<Longrightarrow> (u, v) \<in> set (links_of m bcs gs k) \<Longrightarrow>
   (u, v) \<in> (edge_rel (master_of m bcs gs))\<^sup>* \<and> (v, u) \<in> (edge_rel (master_of m bcs gs))\<^sup>*"
proof -
  assume "k < m choose 2" "(u, v) \<in> set (links_of m bcs gs k)"
  then have "(u, v) \<in> edge_rel (master_of m bcs gs)" "(v, u) \<in> edge_rel (master_of m bcs gs)"
    unfolding edge_rel_master set_all_links by blast+
  then show ?thesis by blast
qed

lemma gate_to_comps_path:
  assumes "0 < gs" "0 < bcs" "nat gs div 2 \<le> nat bcs" "0 < nat gs div 2"
    and "k < m choose 2" "x \<in> set (gate_ids gs k)"
  shows "y \<in> set (comp_ids (m choose 2) bcs gs (fst (pair_plan m ! k)))
           \<Longrightarrow> (x, y) \<in> (edge_rel (master_of m bcs gs))\<^sup>*"
    and "y \<in> set (comp_ids (m choose 2) bcs gs (snd (pair_plan m ! k)))
           \<Longrightarrow> (x, y) \<in> (edge_rel (master_of m bcs gs))\<^sup>*"
proof -
  let ?E = "edge_rel (master_of m bcs gs)"
  note p = pair_plan_nth[OF assms(5)]
  {
    assume y: "y \<in> set (comp_ids (m choose 2) bcs gs (fst (pair_plan m ! k)))"
    from gate_touches(1)[OF assms(1,2,3,4), of k m] obtain u v
      where uv: "u \<in> set (gate_ids gs k)"
        "v \<in> set (comp_ids (m choose 2) bcs gs (fst (pair_plan m ! k)))"
        "(u, v) \<in> set (links_of m bcs gs k)" by blast
    have "(x, u) \<in> ?E\<^sup>*" by (rule gate_clique_path[OF assms(5,6) uv(1)])
    also have "(u, v) \<in> ?E\<^sup>*" using link_path[OF assms(5) uv(3)] by simp
    also have "(v, y) \<in> ?E\<^sup>*" using p by (intro comp_clique_path[OF _ uv(2) y]) simp
    finally show "(x, y) \<in> ?E\<^sup>*" .
  }
  {
    assume y: "y \<in> set (comp_ids (m choose 2) bcs gs (snd (pair_plan m ! k)))"
    from gate_touches(2)[OF assms(1,2,3,4), of k m] obtain u v
      where uv: "u \<in> set (gate_ids gs k)"
        "v \<in> set (comp_ids (m choose 2) bcs gs (snd (pair_plan m ! k)))"
        "(u, v) \<in> set (links_of m bcs gs k)" by blast
    have "(x, u) \<in> ?E\<^sup>*" by (rule gate_clique_path[OF assms(5,6) uv(1)])
    also have "(u, v) \<in> ?E\<^sup>*" using link_path[OF assms(5) uv(3)] by simp
    also have "(v, y) \<in> ?E\<^sup>*" using p by (intro comp_clique_path[OF _ uv(2) y]) simp
    finally show "(x, y) \<in> ?E\<^sup>*" .
  }
qed

lemma master_connected:
  assumes "0 < gs" "0 < bcs" "nat gs div 2 \<le> nat bcs" "0 < nat gs div 2" "2 \<le> m"
  shows "connected_graph (master_of m bcs gs)"
proof -
  let ?G = "m choose 2"
  let ?E = "edge_rel (master_of m bcs gs)"
  let ?r = "int ?G * gs"
  have symE: "sym (?E\<^sup>*)" using wf_master[of m bcs gs] by (simp add: wf_graph_def sym_rtrancl)
  have r0: "?r \<in> set (comp_ids ?G bcs gs 0)" using assms(2) by (simp add: set_comp_ids)
  have m0: "0 < m" using assms(5) by simp
  have gate_root: "(x, ?r) \<in> ?E\<^sup>*" if k: "k < ?G" and x: "x \<in> set (gate_ids gs k)" for k x
  proof -
    let ?a = "fst (pair_plan m ! k)"
    have am: "?a < m" using pair_plan_nth[OF k] by simp
    have a0: "?r + int ?a * bcs \<in> set (comp_ids ?G bcs gs ?a)"
      using assms(2) by (simp add: set_comp_ids)
    have 1: "(x, ?r + int ?a * bcs) \<in> ?E\<^sup>*"
      by (rule gate_to_comps_path(1)[OF assms(1,2,3,4) k x a0])
    show ?thesis
    proof (cases "?a = 0")
      case True
      with 1 show ?thesis by simp
    next
      case False
      with am have "(0, ?a) \<in> set (pair_plan m)" by (simp add: set_pair_plan)
      then obtain j where j: "j < ?G" "pair_plan m ! j = (0, ?a)"
        by (auto simp: in_set_conv_nth length_pair_plan)
      have g0: "int j * gs \<in> set (gate_ids gs j)" using assms(1) by (simp add: set_gate_ids)
      have "(int j * gs, ?r + int ?a * bcs) \<in> ?E\<^sup>*"
        using gate_to_comps_path(2)[OF assms(1,2,3,4) j(1) g0, of "?r + int ?a * bcs"] a0 j(2)
        by simp
      then have 2: "(?r + int ?a * bcs, int j * gs) \<in> ?E\<^sup>*" using symE by (blast dest: symD)
      have 3: "(int j * gs, ?r) \<in> ?E\<^sup>*"
        using gate_to_comps_path(1)[OF assms(1,2,3,4) j(1) g0, of ?r] r0 j(2) by simp
      from 1 2 3 show ?thesis by (blast intro: rtrancl_trans)
    qed
  qed
  have comp_root: "(x, ?r) \<in> ?E\<^sup>*" if c: "c < m" and x: "x \<in> set (comp_ids ?G bcs gs c)" for c x
  proof (cases "c = 0")
    case True
    with x r0 m0 show ?thesis by (intro comp_clique_path[of 0]) simp_all
  next
    case False
    with c have "(0, c) \<in> set (pair_plan m)" by (simp add: set_pair_plan)
    then obtain j where j: "j < ?G" "pair_plan m ! j = (0, c)"
      by (auto simp: in_set_conv_nth length_pair_plan)
    have g0: "int j * gs \<in> set (gate_ids gs j)" using assms(1) by (simp add: set_gate_ids)
    have "(int j * gs, x) \<in> ?E\<^sup>*"
      using gate_to_comps_path(2)[OF assms(1,2,3,4) j(1) g0, of x] x j(2) by simp
    then have "(x, int j * gs) \<in> ?E\<^sup>*" using symE by (blast dest: symD)
    moreover have "(int j * gs, ?r) \<in> ?E\<^sup>*" by (rule gate_root[OF j(1) g0])
    ultimately show ?thesis by (rule rtrancl_trans)
  qed
  have root: "(x, ?r) \<in> ?E\<^sup>*" if "x \<in> set (nodes (master_of m bcs gs))" for x
  proof -
    from that have "x \<in> {0..<int ?G * gs} \<union> {int ?G * gs..<int ?G * gs + int m * bcs}"
      unfolding nodes_master[OF assms(1,2,3)] by auto
    then have "(\<exists>k<?G. x \<in> set (gate_ids gs k)) \<or> (\<exists>c<m. x \<in> set (comp_ids ?G bcs gs c))"
      unfolding gates_cover[OF assms(1), symmetric] comps_cover[OF assms(2), symmetric] by blast
    then show ?thesis using gate_root comp_root by blast
  qed
  have "?r \<in> set (nodes (master_of m bcs gs))"
  proof -
    have "0 \<le> int ?G * gs" using assms(1) by simp
    moreover have "0 < int m * bcs" using assms(2) m0 by simp
    ultimately show ?thesis unfolding nodes_master[OF assms(1,2,3)] by simp
  qed
  then have ne: "nodes (master_of m bcs gs) \<noteq> []" by auto
  have "(u, v) \<in> ?E\<^sup>*" if "u \<in> set (nodes (master_of m bcs gs))" "v \<in> set (nodes (master_of m bcs gs))" for u v
  proof -
    have "(u, ?r) \<in> ?E\<^sup>*" by (rule root[OF that(1)])
    moreover have "(?r, v) \<in> ?E\<^sup>*" using root[OF that(2)] symE by (blast dest: symD)
    ultimately show ?thesis by (rule rtrancl_trans)
  qed
  with ne show ?thesis by (simp add: connected_graph_def)
qed


section \<open>The cliques of the composed graph\<close>


lemma gate_is_clique:
  assumes "0 < gs" "0 < bcs" "nat gs div 2 \<le> nat bcs" "k < m choose 2"
  shows "is_clique_in (master_of m bcs gs) (gate_graph gs k) (nat gs)"
proof -
  have "set (gate_ids gs k) \<subseteq> {0..<int (m choose 2) * gs}"
    using gates_cover[OF assms(1), of "m choose 2"] assms(4) by blast
  moreover have "0 \<le> int m * bcs" using assms(2) by simp
  ultimately have "set (gate_ids gs k) \<subseteq> set (nodes (master_of m bcs gs))"
    unfolding nodes_master[OF assms(1,2,3)] by auto
  moreover have "(u, v) \<in> edge_rel (master_of m bcs gs)"
    if "u \<in> set (gate_ids gs k)" "v \<in> set (gate_ids gs k)" "u \<noteq> v" for u v
    unfolding edge_rel_master edge_rel_gate_graph using that assms(4) by blast
  ultimately show ?thesis
    by (simp add: is_clique_in_def nodes_gate_graph length_gate_ids distinct_gate_ids
        edge_rel_gate_graph)
qed

lemma comp_is_clique:
  assumes "0 < gs" "0 < bcs" "nat gs div 2 \<le> nat bcs" "c < m"
  shows "is_clique_in (master_of m bcs gs) (comp_graph (m choose 2) bcs gs c) (nat bcs)"
proof -
  have "set (comp_ids (m choose 2) bcs gs c)
        \<subseteq> {int (m choose 2) * gs..<int (m choose 2) * gs + int m * bcs}"
    using comps_cover[OF assms(2), where m=m and G="m choose 2" and gs=gs] assms(4) by blast
  moreover have "0 \<le> int (m choose 2) * gs" using assms(1) by simp
  ultimately have "set (comp_ids (m choose 2) bcs gs c) \<subseteq> set (nodes (master_of m bcs gs))"
    unfolding nodes_master[OF assms(1,2,3)] by auto
  moreover have "(u, v) \<in> edge_rel (master_of m bcs gs)"
    if "u \<in> set (comp_ids (m choose 2) bcs gs c)" "v \<in> set (comp_ids (m choose 2) bcs gs c)" "u \<noteq> v"
    for u v
    unfolding edge_rel_master edge_rel_comp_graph using that assms(4) by blast
  ultimately show ?thesis
    by (simp add: is_clique_in_def nodes_comp_graph length_comp_ids distinct_comp_ids
        edge_rel_comp_graph)
qed

lemma cliques_disjoint:
  assumes "0 < gs" "0 < bcs"
  shows "disjoint_cliques (map (gate_graph gs) [0..<G] @ map (comp_graph G bcs gs) [0..<m])"
proof -
  let ?cs = "map (gate_graph gs) [0..<G] @ map (comp_graph G bcs gs) [0..<m]"
  have n: "nodes (?cs ! a) = (if a < G then gate_ids gs a else comp_ids G bcs gs (a - G))"
    if "a < G + m" for a
    using that by (simp add: nth_append nodes_gate_graph nodes_comp_graph)
  have "set (nodes (?cs ! a)) \<inter> set (nodes (?cs ! b)) = {}"
    if "a < G + m" "b < G + m" "a \<noteq> b" for a b
  proof -
    have "False" if x: "x \<in> set (nodes (?cs ! a))" "x \<in> set (nodes (?cs ! b))" for x
    proof (cases "a < G"; cases "b < G")
      assume "a < G" "b < G"
      with x n \<open>a < G + m\<close> \<open>b < G + m\<close> \<open>a \<noteq> b\<close> show False
        using gate_ids_disjoint[OF assms(1), of x a b] by simp
    next
      assume "a < G" "\<not> b < G"
      with x n \<open>a < G + m\<close> \<open>b < G + m\<close> show False
        using gate_comp_disjoint[OF assms, of a G x "b - G"] by simp
    next
      assume "\<not> a < G" "b < G"
      with x n \<open>a < G + m\<close> \<open>b < G + m\<close> show False
        using gate_comp_disjoint[OF assms, of b G x "a - G"] by simp
    next
      assume "\<not> a < G" "\<not> b < G"
      with x n \<open>a < G + m\<close> \<open>b < G + m\<close> \<open>a \<noteq> b\<close> show False
        using comp_ids_disjoint[OF assms(2), of x G gs "a - G" "b - G"] by auto
    qed
    then show ?thesis by blast
  qed
  then show ?thesis by (simp add: disjoint_cliques_def)
qed


section \<open>The edges of the composed graph, classified\<close>


lemma master_edges_classified:
  assumes "0 < gs" "0 < bcs" "nat gs div 2 \<le> nat bcs"
  shows "edges_classified (master_of m bcs gs) (map (gate_graph gs) [0..<m choose 2])
           (map (comp_graph (m choose 2) bcs gs) [0..<m])"
proof -
  let ?G = "m choose 2"
  let ?gates = "map (gate_graph gs) [0..<?G]"
  let ?comps = "map (comp_graph ?G bcs gs) [0..<m]"
  have g: "gate_graph gs k \<in> set ?gates" if "k < ?G" for k using that by simp
  have c: "comp_graph ?G bcs gs c \<in> set ?comps" if "c < m" for c using that by simp
  have "(\<exists>c \<in> set (?gates @ ?comps). u \<in> set (nodes c) \<and> v \<in> set (nodes c)) \<or>
        (\<exists>a \<in> set ?gates. \<exists>c \<in> set ?comps.
           (u \<in> set (nodes a) \<and> v \<in> set (nodes c)) \<or> (v \<in> set (nodes a) \<and> u \<in> set (nodes c)))"
    if e: "(u, v) \<in> edge_rel (master_of m bcs gs)" for u v
    using master_edge_cases[OF e]
  proof (elim disjE exE conjE)
    fix k assume "k < ?G" "u \<in> set (gate_ids gs k)" "v \<in> set (gate_ids gs k)"
    then have "gate_graph gs k \<in> set (?gates @ ?comps)"
      "u \<in> set (nodes (gate_graph gs k))" "v \<in> set (nodes (gate_graph gs k))"
      by (simp_all add: nodes_gate_graph)
    then show ?thesis by blast
  next
    fix c assume "c < m" "u \<in> set (comp_ids ?G bcs gs c)" "v \<in> set (comp_ids ?G bcs gs c)"
    then have "comp_graph ?G bcs gs c \<in> set (?gates @ ?comps)"
      "u \<in> set (nodes (comp_graph ?G bcs gs c))" "v \<in> set (nodes (comp_graph ?G bcs gs c))"
      by (simp_all add: nodes_comp_graph)
    then show ?thesis by blast
  next
    fix k assume k: "k < ?G" "(u, v) \<in> set (links_of m bcs gs k)"
    from link_ends[OF assms k] obtain c where "c < m" "u \<in> set (gate_ids gs k)"
      "v \<in> set (comp_ids ?G bcs gs c)" by blast
    then have "u \<in> set (nodes (gate_graph gs k))" "v \<in> set (nodes (comp_graph ?G bcs gs c))"
      by (simp_all add: nodes_gate_graph nodes_comp_graph)
    with g[OF k(1)] c[OF \<open>c < m\<close>] show ?thesis by blast
  next
    fix k assume k: "k < ?G" "(v, u) \<in> set (links_of m bcs gs k)"
    from link_ends[OF assms k] obtain c where "c < m" "v \<in> set (gate_ids gs k)"
      "u \<in> set (comp_ids ?G bcs gs c)" by blast
    then have "v \<in> set (nodes (gate_graph gs k))" "u \<in> set (nodes (comp_graph ?G bcs gs c))"
      by (simp_all add: nodes_gate_graph nodes_comp_graph)
    with g[OF k(1)] c[OF \<open>c < m\<close>] show ?thesis by blast
  qed
  then show ?thesis unfolding edges_classified_def by blast
qed

lemma master_one_exit:
  assumes "0 < gs" "0 < bcs" "nat gs div 2 \<le> nat bcs" "nat gs - nat gs div 2 \<le> nat bcs"
  shows "one_exit_per_gate_node (master_of m bcs gs) (map (gate_graph gs) [0..<m choose 2])"
  unfolding one_exit_per_gate_node_def
proof (intro ballI)
  fix a u assume a: "a \<in> set (map (gate_graph gs) [0..<m choose 2])" and u: "u \<in> set (nodes a)"
  from a obtain k where k: "k < m choose 2" "a = gate_graph gs k" by auto
  from u k have "u \<in> set (gate_ids gs k)" by (simp add: nodes_gate_graph)
  from gate_node_one_exit[OF assms k(1) this]
  show "\<exists>!v. (u, v) \<in> edge_rel (master_of m bcs gs) \<and> v \<notin> set (nodes a)"
    by (simp add: k(2) nodes_gate_graph)
qed

lemma master_no_edge_between:
  assumes "0 < gs" "0 < bcs" "nat gs div 2 \<le> nat bcs"
  shows "no_edge_between (master_of m bcs gs) (map (gate_graph gs) [0..<m choose 2])"
    and "no_edge_between (master_of m bcs gs) (map (comp_graph (m choose 2) bcs gs) [0..<m])"
  unfolding no_edge_between_def
  using no_edge_between_gates[OF assms] no_edge_between_comps[OF assms]
  by (simp_all add: nodes_gate_graph nodes_comp_graph)


section \<open>Facts about the generator's helpers\<close>

lemma within_reach_int [code]:
  "within_reach x y i j r \<longleftrightarrow> 0 \<le> r \<and> (x - i)\<^sup>2 + (y - j)\<^sup>2 \<le> r\<^sup>2"
proof (cases "0 \<le> r")
  case True
  have "real_of_int r = sqrt ((real_of_int r)\<^sup>2)" using True by simp
  then have "sqrt (real_of_int ((x - i)\<^sup>2 + (y - j)\<^sup>2)) \<le> real_of_int r
        \<longleftrightarrow> sqrt (real_of_int ((x - i)\<^sup>2 + (y - j)\<^sup>2)) \<le> sqrt ((real_of_int r)\<^sup>2)"
    by simp
  also have "\<dots> \<longleftrightarrow> real_of_int ((x - i)\<^sup>2 + (y - j)\<^sup>2) \<le> (real_of_int r)\<^sup>2"
    by (rule real_sqrt_le_iff)
  also have "\<dots> \<longleftrightarrow> (x - i)\<^sup>2 + (y - j)\<^sup>2 \<le> r\<^sup>2"
    by (metis of_int_le_iff of_int_power)
  finally show ?thesis using True by (simp add: within_reach_def distance_def)
next
  case False
  have "0 \<le> distance x y i j" by (simp add: distance_def)
  moreover have "real_of_int r < 0" using False by simp
  ultimately have "\<not> distance x y i j \<le> real_of_int r" by linarith
  with False show ?thesis by (simp add: within_reach_def)
qed

declare choose_empty_spot.simps [simp del]

lemma integers_Returned:
  "integers rand high = Returned (v, rand') \<Longrightarrow> 0 \<le> v \<and> v < high \<and> length rand' < length rand"
  by (auto simp: integers_def split: if_splits list.splits)

lemma integers_not_Raised: "0 < high \<Longrightarrow> integers rand high \<noteq> Raised e"
  by (auto simp: integers_def split: list.splits)

lemma choose_empty_spot_Returned:
  "choose_empty_spot grid rand = Returned (x, y, rand') \<Longrightarrow>
   cells grid (x, y) = 0 \<and> 0 \<le> x \<and> x < fst (shape grid) \<and> 0 \<le> y \<and> y < snd (shape grid)"
proof (induction grid rand rule: choose_empty_spot.induct)
  case (1 grid rand)
  from "1.prems" obtain x1 rand1 y1 rand2
    where a: "integers rand (fst (shape grid)) = Returned (x1, rand1)"
      and b: "integers rand1 (snd (shape grid)) = Returned (y1, rand2)"
    by (subst (asm) choose_empty_spot.simps) (auto split: outcome.splits)
  show ?case
  proof (cases "0 < cells grid (x1, y1)")
    case True
    with "1.prems" a b have "choose_empty_spot grid rand2 = Returned (x, y, rand')"
      by (subst (asm) choose_empty_spot.simps) simp
    from "1.IH"[OF a refl b refl True this] show ?thesis .
  next
    case False
    with "1.prems" a b have "x = x1" "y = y1"
      by (subst (asm) choose_empty_spot.simps, simp)+
    moreover from False have "cells grid (x1, y1) = 0" by (simp add: word_greater_zero_iff)
    ultimately show ?thesis using integers_Returned[OF a] integers_Returned[OF b] by simp
  qed
qed

lemma choose_empty_spot_not_Raised:
  "0 < fst (shape grid) \<Longrightarrow> 0 < snd (shape grid) \<Longrightarrow> choose_empty_spot grid rand \<noteq> Raised e"
proof (induction grid rand rule: choose_empty_spot.induct)
  case (1 grid rand)
  show ?case
  proof
    assume r: "choose_empty_spot grid rand = Raised e"
    from integers_not_Raised[OF "1.prems"(1)] obtain x1 rand1
      where a: "integers rand (fst (shape grid)) = Returned (x1, rand1)"
      using r by (subst (asm) choose_empty_spot.simps) (auto split: outcome.splits)
    from integers_not_Raised[OF "1.prems"(2)] obtain y1 rand2
      where b: "integers rand1 (snd (shape grid)) = Returned (y1, rand2)"
      using r a by (subst (asm) choose_empty_spot.simps) (auto split: outcome.splits)
    from r a b have t: "0 < cells grid (x1, y1)" and "choose_empty_spot grid rand2 = Raised e"
      by (subst (asm) choose_empty_spot.simps, simp split: if_splits)+
    with "1.IH"[OF a refl b refl t "1.prems"] show False by simp
  qed
qed

section \<open>The invariant of one attempt\<close>

lemma update_keeps_entry:
  "(c, k) \<in> set al \<Longrightarrow> c \<noteq> key \<Longrightarrow> (c, k) \<in> set (AList.update key v al)"
  by (induction al) auto

lemma update_entries:
  assumes "distinct (map fst al)" "(c, k) \<in> set (AList.update key v al)"
  shows "(c = key \<and> k = v) \<or> ((c, k) \<in> set al \<and> c \<noteq> key)"
proof -
  have "distinct (map fst (AList.update key v al))" using assms(1) by (rule distinct_update)
  with assms(2) have "map_of (AList.update key v al) c = Some k" by simp
  then have "((map_of al)(key \<mapsto> v)) c = Some k" by (simp add: update_conv')
  then show ?thesis by (auto split: if_splits dest: map_of_SomeD)
qed

lemma update_has_key: "(key, v) \<in> set (AList.update key v al)"
  by (induction al) auto

lemma gen_inv_place:
  assumes inv: "gen_inv grid loc_to_id current_id M placed"
    and empty: "cells grid (x, y) = 0"
  shows "gen_inv (grid\<lparr>cells := (cells grid)((x, y) := word_of_int (reach a))\<rparr>)
           (AList.update (x, y) current_id loc_to_id) (current_id + 1) M (placed @ [a])"
proof -
  let ?grid = "grid\<lparr>cells := (cells grid)((x, y) := word_of_int (reach a))\<rparr>"
  let ?l2i = "AList.update (x, y) current_id loc_to_id"
  from inv have d: "distinct (map fst loc_to_id)"
    and occ: "\<And>c. cells grid c \<noteq> 0 \<Longrightarrow> c \<in> fst ` set loc_to_id"
    and ent: "\<And>c k. (c, k) \<in> set loc_to_id \<Longrightarrow>
                k < current_id \<and> cells grid c = word_of_int (reach (placed ! k))"
    and len: "current_id = length placed"
    and mat: "\<And>a b. M a b \<noteq> 0 \<Longrightarrow> edge_ok grid loc_to_id a b"
    unfolding gen_inv_def by auto
  have 1: "distinct (map fst ?l2i)" using d by (rule distinct_update)
  have 2: "c \<in> fst ` set ?l2i" if "cells ?grid c \<noteq> 0" for c
  proof (cases "c = (x, y)")
    case True
    then show ?thesis using update_has_key[of "(x, y)" current_id loc_to_id] by force
  next
    case False
    with that have "cells grid c \<noteq> 0" by simp
    from occ[OF this] obtain k where "(c, k) \<in> set loc_to_id" by auto
    from update_keeps_entry[OF this False] show ?thesis by force
  qed
  have 3: "k < current_id + 1 \<and> cells ?grid c = word_of_int (reach ((placed @ [a]) ! k))"
    if "(c, k) \<in> set ?l2i" for c k
    using update_entries[OF d that]
  proof
    assume "c = (x, y) \<and> k = current_id"
    then show ?thesis using len by simp
  next
    assume "(c, k) \<in> set loc_to_id \<and> c \<noteq> (x, y)"
    with ent[of c k] len show ?thesis by (simp add: nth_append)
  qed
  have 5: "edge_ok ?grid ?l2i u v" if "M u v \<noteq> 0" for u v
  proof -
    from mat[OF that] obtain ca cb where e:
      "(ca, u) \<in> set loc_to_id" "(cb, v) \<in> set loc_to_id"
      "cells grid ca \<noteq> 0" "cells grid cb \<noteq> 0"
      "within_reach (fst ca) (snd ca) (fst cb) (snd cb) (uint (cells grid ca)) \<or>
       within_reach (fst ca) (snd ca) (fst cb) (snd cb) (uint (cells grid cb))"
      unfolding edge_ok_def by blast
    from e(3,4) empty have n: "ca \<noteq> (x, y)" "cb \<noteq> (x, y)" by auto
    from update_keeps_entry[OF e(1) n(1)] update_keeps_entry[OF e(2) n(2)] e(3,4,5) n
    show ?thesis unfolding edge_ok_def
      by (intro exI[of _ ca] exI[of _ cb]) simp
  qed
  from 1 2 3 5 len show ?thesis unfolding gen_inv_def by auto
qed

lemma place_agents_inv:
  assumes "place_agents q (reach a) grid na loc_to_id current_id rand
           = Returned (grid', na', loc_to_id', current_id', rand')"
    and "gen_inv grid loc_to_id current_id M placed"
    and "set na \<subseteq> fst ` set loc_to_id"
  shows "gen_inv grid' loc_to_id' current_id' M (placed @ replicate q a)
         \<and> current_id' = current_id + q
         \<and> set na' \<subseteq> fst ` set loc_to_id'
         \<and> shape grid' = shape grid"
  using assms
proof (induction q arbitrary: grid na loc_to_id current_id rand placed)
  case 0
  then show ?case by simp
next
  case (Suc q)
  from Suc.prems(1) obtain x y rand1
    where c: "choose_empty_spot grid rand = Returned (x, y, rand1)"
    by (auto split: outcome.splits)
  let ?grid = "grid\<lparr>cells := (cells grid)((x, y) := word_of_int (reach a))\<rparr>"
  let ?l2i = "AList.update (x, y) current_id loc_to_id"
  from Suc.prems(1) c have p: "place_agents q (reach a) ?grid (na @ [(x, y)]) ?l2i (current_id + 1) rand1
        = Returned (grid', na', loc_to_id', current_id', rand')"
    by simp
  from choose_empty_spot_Returned[OF c] have e: "cells grid (x, y) = 0" by simp
  have i: "gen_inv ?grid ?l2i (current_id + 1) M (placed @ [a])"
    by (rule gen_inv_place[OF Suc.prems(2) e])
  have k: "set (na @ [(x, y)]) \<subseteq> fst ` set ?l2i"
    using Suc.prems(3) by (auto simp: dom_update)
  from Suc.IH[OF p i k] show ?case by (auto simp: replicate_app_Cons_same)
qed

lemma place_agents_not_Raised:
  "0 < fst (shape grid) \<Longrightarrow> 0 < snd (shape grid) \<Longrightarrow>
   place_agents q r grid na loc_to_id current_id rand \<noteq> Raised e"
proof (induction q arbitrary: grid na loc_to_id current_id rand)
  case 0
  then show ?case by simp
next
  case (Suc q)
  show ?case
  proof (cases "choose_empty_spot grid rand")
    case (Returned t)
    obtain x y rand1 where t: "t = (x, y, rand1)" by (cases t)
    let ?grid = "grid\<lparr>cells := (cells grid)((x, y) := word_of_int r)\<rparr>"
    have "0 < fst (shape ?grid)" "0 < snd (shape ?grid)" using Suc.prems by simp_all
    from Suc.IH[OF this] Returned t show ?thesis by simp
  next
    case (Raised e')
    with choose_empty_spot_not_Raised[OF Suc.prems] show ?thesis by simp
  next
    case Pending
    then show ?thesis by simp
  qed
qed

lemma update_new_key: "key \<notin> fst ` set al \<Longrightarrow> AList.update key v al = al @ [(key, v)]"
  by (induction al) auto

lemma dense_inv_place:
  assumes "dense_inv grid loc_to_id current_id" "cells grid (x, y) = 0"
    and "(word_of_int r :: 8 word) \<noteq> 0"
  shows "dense_inv (grid\<lparr>cells := (cells grid)((x, y) := word_of_int r)\<rparr>)
           (AList.update (x, y) current_id loc_to_id) (current_id + 1)"
proof -
  from assms(1,2) have "(x, y) \<notin> fst ` set loc_to_id" unfolding dense_inv_def by blast
  then have u: "AList.update (x, y) current_id loc_to_id = loc_to_id @ [((x, y), current_id)]"
    by (rule update_new_key)
  from assms show ?thesis unfolding dense_inv_def u by auto
qed

lemma place_agents_dense:
  assumes "place_agents q r grid na loc_to_id current_id rand
           = Returned (grid', na', loc_to_id', current_id', rand')"
    and "dense_inv grid loc_to_id current_id"
    and "(word_of_int r :: 8 word) \<noteq> 0 \<or> q = 0"
  shows "dense_inv grid' loc_to_id' current_id'"
  using assms
proof (induction q arbitrary: grid na loc_to_id current_id rand)
  case 0
  then show ?case by simp
next
  case (Suc q)
  from Suc.prems(1) obtain x y rand1
    where c: "choose_empty_spot grid rand = Returned (x, y, rand1)"
    by (auto split: outcome.splits)
  let ?grid = "grid\<lparr>cells := (cells grid)((x, y) := word_of_int r)\<rparr>"
  let ?l2i = "AList.update (x, y) current_id loc_to_id"
  from Suc.prems(1) c have p: "place_agents q r ?grid (na @ [(x, y)]) ?l2i (current_id + 1) rand1
        = Returned (grid', na', loc_to_id', current_id', rand')"
    by simp
  from choose_empty_spot_Returned[OF c] have e: "cells grid (x, y) = 0" by simp
  from Suc.prems(3) have nz: "(word_of_int r :: 8 word) \<noteq> 0" by simp
  have "dense_inv ?grid ?l2i (current_id + 1)" by (rule dense_inv_place[OF Suc.prems(2) e nz])
  from Suc.IH[OF p this] nz show ?case by simp
qed

lemma search_for_neighbors_box:
  assumes "(i, j) \<in> set (search_for_neighbors grid x y)"
  shows "max 0 (x - uint (cells grid (x, y))) \<le> i"
    and "i < min (fst (shape grid) - 1) (x + uint (cells grid (x, y)))"
    and "max 0 (y - uint (cells grid (x, y))) \<le> j"
    and "j < min (snd (shape grid) - 1) (y + uint (cells grid (x, y)))"
    and "0 < cells grid (i, j)"
    and "within_reach x y i j (uint (cells grid (x, y)))"
    and "(x, y) \<noteq> (i, j)"
  using assms unfolding search_for_neighbors_def Let_def range2_def
  by auto

lemma within_reach_sym: "within_reach x y i j r \<longleftrightarrow> within_reach i j x y r"
  by (simp add: within_reach_int power2_commute)

lemma within_reach_positive:
  assumes "within_reach x y i j r" "(x, y) \<noteq> (i, j)"
  shows "0 < r"
proof -
  from assms(1) have r: "0 \<le> r" "(x - i)\<^sup>2 + (y - j)\<^sup>2 \<le> r\<^sup>2" by (simp_all add: within_reach_int)
  from assms(2) have "x - i \<noteq> 0 \<or> y - j \<noteq> 0" by auto
  then have "0 < (x - i)\<^sup>2 + (y - j)\<^sup>2" by (simp add: sum_power2_gt_zero_iff)
  with r(2) have "0 < r\<^sup>2" by linarith
  with r(1) show ?thesis by (cases "r = 0") simp_all
qed

lemma mark_neighbors_ok:
  assumes "distinct (map fst loc_to_id)" "(loc, a) \<in> set loc_to_id"
    and "\<forall>nb \<in> set nbs. nb \<in> fst ` set loc_to_id"
    and "\<forall>(c, k) \<in> set loc_to_id. k < num_nodes"
  shows "\<exists>M'. mark_neighbors num_nodes loc_to_id loc M nbs = Inr M' \<and>
           (\<forall>u v. M' u v \<noteq> 0 \<longrightarrow> M u v \<noteq> 0 \<or>
              (\<exists>nb \<in> set nbs. \<exists>b. (nb, b) \<in> set loc_to_id \<and> ((u = a \<and> v = b) \<or> (u = b \<and> v = a))))"
  using assms(3)
proof (induction nbs arbitrary: M)
  case Nil
  then show ?case by simp
next
  case (Cons nb rest)
  from Cons.prems obtain b where b: "(nb, b) \<in> set loc_to_id" by auto
  have ga: "dict_get (map_of loc_to_id) loc = Inr a"
    using assms(1,2) by (simp add: dict_get_def)
  have gb: "dict_get (map_of loc_to_id) nb = Inr b"
    using assms(1) b by (simp add: dict_get_def)
  from assms(2,4) b have lt: "a < num_nodes" "b < num_nodes" by auto
  let ?M1 = "M(a := (M a)(b := 1))"
  let ?M2 = "?M1(b := (?M1 b)(a := 1))"
  have s1: "set_entry num_nodes M a b = Inr ?M1" using lt by (simp add: set_entry_def)
  have s2: "set_entry num_nodes ?M1 b a = Inr ?M2" using lt by (simp add: set_entry_def)
  from Cons.prems have "\<forall>nb \<in> set rest. nb \<in> fst ` set loc_to_id" by simp
  from Cons.IH[OF this, of ?M2] obtain M' where
    m: "mark_neighbors num_nodes loc_to_id loc ?M2 rest = Inr M'"
    and e: "\<And>u v. M' u v \<noteq> 0 \<Longrightarrow> ?M2 u v \<noteq> 0 \<or>
              (\<exists>nb \<in> set rest. \<exists>b. (nb, b) \<in> set loc_to_id \<and> ((u = a \<and> v = b) \<or> (u = b \<and> v = a)))"
    by blast
  have r: "mark_neighbors num_nodes loc_to_id loc M (nb # rest) = Inr M'"
    using m lt by (simp add: ga gb set_entry_def)
  have "M u v \<noteq> 0 \<or>
        (\<exists>nb' \<in> set (nb # rest). \<exists>b. (nb', b) \<in> set loc_to_id \<and> ((u = a \<and> v = b) \<or> (u = b \<and> v = a)))"
    if "M' u v \<noteq> 0" for u v
    using e[OF that]
  proof
    assume "?M2 u v \<noteq> 0"
    then have "M u v \<noteq> 0 \<or> (u = a \<and> v = b) \<or> (u = b \<and> v = a)"
      by (auto split: if_splits)
    with b show ?thesis by auto
  next
    assume "\<exists>nb \<in> set rest. \<exists>b. (nb, b) \<in> set loc_to_id \<and> ((u = a \<and> v = b) \<or> (u = b \<and> v = a))"
    then show ?thesis by auto
  qed
  with r show ?case by blast
qed

lemma mark_neighbors_inv:
  assumes inv: "gen_inv grid loc_to_id current_id M placed"
    and le: "current_id \<le> num_nodes"
    and key: "(x, y) \<in> fst ` set loc_to_id"
  shows "\<exists>M'. mark_neighbors num_nodes loc_to_id (x, y) M (search_for_neighbors grid x y) = Inr M'
           \<and> gen_inv grid loc_to_id current_id M' placed"
proof -
  let ?nbs = "search_for_neighbors grid x y"
  from inv have d: "distinct (map fst loc_to_id)"
    and occ: "\<And>c. cells grid c \<noteq> 0 \<Longrightarrow> c \<in> fst ` set loc_to_id"
    and ent: "\<And>c k. (c, k) \<in> set loc_to_id \<Longrightarrow>
                k < current_id \<and> cells grid c = word_of_int (reach (placed ! k))"
    and len: "current_id = length placed"
    and mat: "\<And>a b. M a b \<noteq> 0 \<Longrightarrow> edge_ok grid loc_to_id a b"
    unfolding gen_inv_def by auto
  from key obtain a where a: "((x, y), a) \<in> set loc_to_id" by auto
  have nk: "\<forall>nb \<in> set ?nbs. nb \<in> fst ` set loc_to_id"
  proof
    fix nb assume "nb \<in> set ?nbs"
    then have "0 < cells grid nb" using search_for_neighbors_box(5)[of "fst nb" "snd nb" grid x y] by simp
    then have "cells grid nb \<noteq> 0" by auto
    then show "nb \<in> fst ` set loc_to_id" by (rule occ)
  qed
  have ids: "\<forall>(c, k) \<in> set loc_to_id. k < num_nodes" using ent le by fastforce
  from mark_neighbors_ok[OF d a nk ids, of M] obtain M' where
    r: "mark_neighbors num_nodes loc_to_id (x, y) M ?nbs = Inr M'"
    and e: "\<And>u v. M' u v \<noteq> 0 \<Longrightarrow> M u v \<noteq> 0 \<or>
              (\<exists>nb \<in> set ?nbs. \<exists>b. (nb, b) \<in> set loc_to_id \<and> ((u = a \<and> v = b) \<or> (u = b \<and> v = a)))"
    by blast
  have "edge_ok grid loc_to_id u v" if "M' u v \<noteq> 0" for u v
    using e[OF that]
  proof
    assume "M u v \<noteq> 0"
    then show ?thesis by (rule mat)
  next
    assume "\<exists>nb \<in> set ?nbs. \<exists>b. (nb, b) \<in> set loc_to_id \<and> ((u = a \<and> v = b) \<or> (u = b \<and> v = a))"
    then obtain nb b where nb: "nb \<in> set ?nbs" "(nb, b) \<in> set loc_to_id"
      "(u = a \<and> v = b) \<or> (u = b \<and> v = a)" by blast
    obtain i j where ij: "nb = (i, j)" by (cases nb)
    note box = search_for_neighbors_box[OF nb(1)[unfolded ij]]
    let ?r = "uint (cells grid (x, y))"
    have w: "within_reach x y i j ?r" by (rule box(6))
    have cnb: "cells grid (i, j) \<noteq> 0" using box(5) by auto
    have "0 < ?r" by (rule within_reach_positive[OF w box(7)])
    then have cloc: "cells grid (x, y) \<noteq> 0" by auto
    from nb(3) show ?thesis
    proof
      assume "u = a \<and> v = b"
      with a nb(2) ij cloc cnb w show ?thesis
        unfolding edge_ok_def by (intro exI[of _ "(x, y)"] exI[of _ "(i, j)"]) simp
    next
      assume "u = b \<and> v = a"
      moreover have "within_reach i j x y ?r" using w by (simp add: within_reach_sym)
      ultimately show ?thesis using a nb(2) ij cloc cnb
        unfolding edge_ok_def by (intro exI[of _ "(i, j)"] exI[of _ "(x, y)"]) simp
    qed
  qed
  with d occ ent len have "gen_inv grid loc_to_id current_id M' placed"
    unfolding gen_inv_def by auto
  with r show ?thesis by blast
qed

lemma connect_agents_inv:
  assumes "gen_inv grid loc_to_id current_id M placed" "current_id \<le> num_nodes"
    and "set na \<subseteq> fst ` set loc_to_id"
  shows "\<exists>M'. connect_agents grid num_nodes loc_to_id M na = Inr M'
           \<and> gen_inv grid loc_to_id current_id M' placed"
  using assms(1,3)
proof (induction na arbitrary: M)
  case Nil
  then show ?case by simp
next
  case (Cons loc rest)
  obtain x y where loc: "loc = (x, y)" by (cases loc)
  from Cons.prems(2) loc have k: "(x, y) \<in> fst ` set loc_to_id" by simp
  from mark_neighbors_inv[OF Cons.prems(1) assms(2) k] obtain M1 where
    m: "mark_neighbors num_nodes loc_to_id (x, y) M (search_for_neighbors grid x y) = Inr M1"
    and i: "gen_inv grid loc_to_id current_id M1 placed" by blast
  from Cons.prems(2) have "set rest \<subseteq> fst ` set loc_to_id" by simp
  from Cons.IH[OF i this] m loc show ?case by simp
qed

lemma agents_loop_inv:
  assumes "gen_inv grid loc_to_id current_id M placed"
    and "current_id + sum_list (map snd ags) \<le> num_nodes"
    and "0 < fst (shape grid)" "0 < snd (shape grid)"
  shows "case agents_loop ags num_nodes grid loc_to_id current_id M rand of
           Returned (grid', loc_to_id', current_id', M', rand') \<Rightarrow>
             gen_inv grid' loc_to_id' current_id' M'
               (placed @ concat (map (\<lambda>(agent, quantity). replicate quantity agent) ags))
             \<and> current_id' = current_id + sum_list (map snd ags)
             \<and> shape grid' = shape grid
         | Raised e \<Rightarrow> False
         | Pending \<Rightarrow> True"
  using assms
proof (induction ags arbitrary: grid loc_to_id current_id M rand placed)
  case Nil
  then show ?case by simp
next
  case (Cons aq ags)
  obtain a q where aq: "aq = (a, q)" by (cases aq)
  show ?case
  proof (cases "place_agents q (reach a) grid [] loc_to_id current_id rand")
    case (Returned t)
    obtain grid1 na l2i1 cur1 rand1 where t: "t = (grid1, na, l2i1, cur1, rand1)"
      by (cases t) auto
    from place_agents_inv[OF Returned[unfolded t] Cons.prems(1)]
    have i1: "gen_inv grid1 l2i1 cur1 M (placed @ replicate q a)"
      and c1: "cur1 = current_id + q" and n1: "set na \<subseteq> fst ` set l2i1"
      and s1: "shape grid1 = shape grid" by auto
    from c1 Cons.prems(2) aq have le: "cur1 \<le> num_nodes" by simp
    from connect_agents_inv[OF i1 le n1] obtain M1 where
      m: "connect_agents grid1 num_nodes l2i1 M na = Inr M1"
      and i2: "gen_inv grid1 l2i1 cur1 M1 (placed @ replicate q a)" by blast
    have le2: "cur1 + sum_list (map snd ags) \<le> num_nodes" using c1 Cons.prems(2) aq by simp
    have sh: "0 < fst (shape grid1)" "0 < snd (shape grid1)" using s1 Cons.prems(3,4) by simp_all
    from Cons.IH[OF i2 le2 sh, of rand1] Returned t m aq c1 s1 show ?thesis
      by (auto split: outcome.splits)
  next
    case (Raised e)
    with place_agents_not_Raised[OF Cons.prems(3,4)] show ?thesis by simp
  next
    case Pending
    with aq show ?thesis by simp
  qed
qed

lemma agents_loop_dense:
  assumes "agents_loop ags num_nodes grid loc_to_id current_id M rand
           = Returned (grid', loc_to_id', current_id', M', rand')"
    and "dense_inv grid loc_to_id current_id"
    and "\<forall>(a, q) \<in> set ags. (word_of_int (reach a) :: 8 word) \<noteq> 0 \<or> q = 0"
  shows "dense_inv grid' loc_to_id' current_id'"
  using assms
proof (induction ags arbitrary: grid loc_to_id current_id M rand)
  case Nil
  then show ?case by simp
next
  case (Cons aq ags)
  obtain a q where aq: "aq = (a, q)" by (cases aq)
  from Cons.prems(1) aq obtain grid1 na l2i1 cur1 rand1 M1 where
    p: "place_agents q (reach a) grid [] loc_to_id current_id rand = Returned (grid1, na, l2i1, cur1, rand1)"
    and c: "connect_agents grid1 num_nodes l2i1 M na = Inr M1"
    and l: "agents_loop ags num_nodes grid1 l2i1 cur1 M1 rand1 = Returned (grid', loc_to_id', current_id', M', rand')"
    by (auto split: outcome.splits sum.splits)
  from Cons.prems(3) aq have nz: "(word_of_int (reach a) :: 8 word) \<noteq> 0 \<or> q = 0" by simp
  have d1: "dense_inv grid1 l2i1 cur1" by (rule place_agents_dense[OF p Cons.prems(2) nz])
  from Cons.prems(3) have "\<forall>(a, q) \<in> set ags. (word_of_int (reach a) :: 8 word) \<noteq> 0 \<or> q = 0" by simp
  from Cons.IH[OF l d1 this] show ?case .
qed

section \<open>What one attempt returns\<close>

lemma agents_loop_Returned:
  assumes "agents_loop ags num_nodes grid loc_to_id current_id M rand
           = Returned (grid', loc_to_id', current_id', M', rand')"
    and "gen_inv grid loc_to_id current_id M placed"
    and "current_id + sum_list (map snd ags) \<le> num_nodes"
  shows "gen_inv grid' loc_to_id' current_id' M'
           (placed @ concat (map (\<lambda>(agent, quantity). replicate quantity agent) ags))
         \<and> current_id' = current_id + sum_list (map snd ags)
         \<and> shape grid' = shape grid"
  using assms
proof (induction ags arbitrary: grid loc_to_id current_id M rand placed)
  case Nil
  then show ?case by simp
next
  case (Cons aq ags)
  obtain a q where aq: "aq = (a, q)" by (cases aq)
  from Cons.prems(1) aq obtain grid1 na l2i1 cur1 rand1 M1 where
    p: "place_agents q (reach a) grid [] loc_to_id current_id rand = Returned (grid1, na, l2i1, cur1, rand1)"
    and c: "connect_agents grid1 num_nodes l2i1 M na = Inr M1"
    and l: "agents_loop ags num_nodes grid1 l2i1 cur1 M1 rand1 = Returned (grid', loc_to_id', current_id', M', rand')"
    by (auto split: outcome.splits sum.splits)
  from place_agents_inv[OF p Cons.prems(2)]
  have i1: "gen_inv grid1 l2i1 cur1 M (placed @ replicate q a)"
    and c1: "cur1 = current_id + q" and n1: "set na \<subseteq> fst ` set l2i1"
    and s1: "shape grid1 = shape grid" by auto
  from c1 Cons.prems(3) aq have le: "cur1 \<le> num_nodes" by simp
  from connect_agents_inv[OF i1 le n1] c
  have i2: "gen_inv grid1 l2i1 cur1 M1 (placed @ replicate q a)" by auto
  have le2: "cur1 + sum_list (map snd ags) \<le> num_nodes" using c1 Cons.prems(3) aq by simp
  from Cons.IH[OF l i2 le2] aq c1 s1 show ?case by auto
qed

lemma sum_snd_insort_key:
  "sum_list (map snd (insort_key f x xs)) = snd x + sum_list (map snd (xs :: ('a \<times> nat) list))"
  by (induction xs) auto

lemma sum_snd_sort_key:
  "sum_list (map snd (sort_key f xs)) = sum_list (map snd (xs :: ('a \<times> nat) list))"
  by (induction xs) (auto simp: sort_key_def sum_snd_insort_key)

lemma nodes_graph_of_matrix: "nodes (graph_of_matrix n M) = [0..<n]"
proof -
  have a: "nodes (add_nodes_from (empty_graph :: nat graph) [0..<n]) = [0..<n]"
    using add_nodes_from_distinct_aux[of "empty_graph :: nat graph" "[0..<n]"]
    by (simp add: add_nodes_from_def empty_graph_def)
  show ?thesis
    unfolding graph_of_matrix_def
    by (subst nodes_list_add_edges_from) (auto simp: a)
qed

lemma wf_graph_of_matrix: "wf_graph (graph_of_matrix n M)"
  by (simp add: graph_of_matrix_def wf_add_edges_from wf_add_nodes_from wf_empty_graph)

lemma edge_rel_graph_of_matrix:
  "edge_rel (graph_of_matrix n M) = {(u, v). u < n \<and> v < n \<and> (M u v \<noteq> 0 \<or> M v u \<noteq> 0)}"
proof -
  have e: "edge_rel (empty_graph :: nat graph) = {}" by (simp add: edge_rel_def empty_graph_def)
  show ?thesis
    unfolding graph_of_matrix_def edge_rel_add_edges_from edge_rel_add_nodes_from e
    by auto
qed

lemma gen_inv_initial: "gen_inv \<lparr>shape = grid_size, cells = (\<lambda>_. 0)\<rparr> [] 0 (\<lambda>_ _. 0) []"
  by (simp add: gen_inv_def)

lemma dense_inv_initial: "dense_inv \<lparr>shape = grid_size, cells = (\<lambda>_. 0)\<rparr> [] 0"
  by (simp add: dense_inv_def)

lemma attempt_Returned:
  assumes "attempt items grid_size rand = Returned (G, layout, colors, grid, loc_to_id, rand')"
  shows "\<exists>M. G = graph_of_matrix (sum_list (map snd items)) M
           \<and> gen_inv grid loc_to_id (sum_list (map snd items)) M (placement_order items)"
    and "layout = map (\<lambda>((x, y), ident).
                        (ident, (2 * real_of_int x / real_of_int (fst grid_size) - 1,
                                 2 * real_of_int y / real_of_int (snd grid_size) - 1))) loc_to_id"
    and "colors = concat (map (\<lambda>(agent, quantity). replicate quantity (color agent)) items)"
    and "(\<forall>(a, q) \<in> set items. (word_of_int (reach a) :: 8 word) \<noteq> 0 \<or> q = 0)
           \<Longrightarrow> dense_inv grid loc_to_id (sum_list (map snd items))"
proof -
  let ?ags = "sort_key (\<lambda>agent_quantity. - reach (fst agent_quantity)) items"
  let ?n = "sum_list (map snd items)"
  let ?g0 = "\<lparr>shape = grid_size, cells = (\<lambda>_. 0)\<rparr>"
  from assms have z: "zeros grid_size = Inr ?g0"
    by (auto simp: attempt_def zeros_def Let_def split: if_splits)
  from assms z obtain cur M where
    l: "agents_loop ?ags ?n ?g0 [] 0 (\<lambda>_ _. 0) rand = Returned (grid, loc_to_id, cur, M, rand')"
    and G: "G = graph_of_matrix ?n M"
    and lay: "layout = map (\<lambda>((x, y), ident).
                        (ident, (2 * real_of_int x / real_of_int (fst grid_size) - 1,
                                 2 * real_of_int y / real_of_int (snd grid_size) - 1))) loc_to_id"
    and col: "colors = concat (map (\<lambda>(agent, quantity). replicate quantity (color agent)) items)"
    by (auto simp: attempt_def Let_def split: outcome.splits)
  have le: "0 + sum_list (map snd ?ags) \<le> ?n" by (simp add: sum_snd_sort_key)
  from agents_loop_Returned[OF l gen_inv_initial le]
  have "gen_inv grid loc_to_id cur M (placement_order items)" and "cur = ?n"
    by (auto simp: placement_order_def sum_snd_sort_key)
  with G show "\<exists>M. G = graph_of_matrix ?n M \<and> gen_inv grid loc_to_id ?n M (placement_order items)"
    by blast
  show "layout = map (\<lambda>((x, y), ident).
                        (ident, (2 * real_of_int x / real_of_int (fst grid_size) - 1,
                                 2 * real_of_int y / real_of_int (snd grid_size) - 1))) loc_to_id"
    by (rule lay)
  show "colors = concat (map (\<lambda>(agent, quantity). replicate quantity (color agent)) items)"
    by (rule col)
  assume nz: "\<forall>(a, q) \<in> set items. (word_of_int (reach a) :: 8 word) \<noteq> 0 \<or> q = 0"
  then have "\<forall>(a, q) \<in> set ?ags. (word_of_int (reach a) :: 8 word) \<noteq> 0 \<or> q = 0" by simp
  from agents_loop_dense[OF l dense_inv_initial this] \<open>cur = ?n\<close>
  show "dense_inv grid loc_to_id ?n" by simp
qed

lemma attempt_not_Raised:
  assumes "0 < fst grid_size" "0 < snd grid_size"
  shows "attempt items grid_size rand \<noteq> Raised e"
proof -
  let ?ags = "sort_key (\<lambda>agent_quantity. - reach (fst agent_quantity)) items"
  let ?n = "sum_list (map snd items)"
  let ?g0 = "\<lparr>shape = grid_size, cells = (\<lambda>_. 0)\<rparr>"
  have z: "zeros grid_size = Inr ?g0" using assms by (simp add: zeros_def)
  have le: "0 + sum_list (map snd ?ags) \<le> ?n" by (simp add: sum_snd_sort_key)
  have "0 < fst (shape ?g0)" "0 < snd (shape ?g0)" using assms by simp_all
  from agents_loop_inv[OF gen_inv_initial le this, of rand]
  show ?thesis
    by (auto simp: attempt_def z Let_def split: outcome.splits)
qed

section \<open>Facts behind the generator's properties\<close>

lemma stored_reach_nonzero: "(word_of_int r :: 8 word) \<noteq> 0 \<longleftrightarrow> r mod 256 \<noteq> 0"
  by (simp add: word_of_int_eq_0_iff mod_eq_0_iff_dvd)

lemma stored_reach_le: "0 \<le> r \<Longrightarrow> uint (word_of_int r :: 8 word) \<le> r"
  by (simp add: uint_word_of_int zmod_le_nonneg_dividend)

lemma attempts_Some:
  "attempts k items grid_size fc rand = Returned (Some (G, layout, colors)) \<Longrightarrow>
   \<exists>rand0 grid loc_to_id rand1.
     attempt items grid_size rand0 = Returned (G, layout, colors, grid, loc_to_id, rand1)
     \<and> (fc \<longrightarrow> is_connected G = Inr True)"
proof (induction k arbitrary: rand)
  case 0
  then show ?case by simp
next
  case (Suc k)
  from Suc.prems obtain G1 layout1 colors1 grid loc_to_id rand1 where
    a: "attempt items grid_size rand = Returned (G1, layout1, colors1, grid, loc_to_id, rand1)"
    by (auto split: outcome.splits)
  show ?case
  proof (cases "fc \<and> is_connected G1 = Inr False")
    case True
    with Suc.prems a have "attempts k items grid_size fc rand1 = Returned (Some (G, layout, colors))"
      by simp
    from Suc.IH[OF this] show ?thesis .
  next
    case False
    with Suc.prems a have "G1 = G \<and> layout1 = layout \<and> colors1 = colors \<and> (fc \<longrightarrow> is_connected G = Inr True)"
      by (auto split: if_splits sum.splits bool.splits)
    with a show ?thesis by blast
  qed
qed

lemma set_placement_order: "set (placement_order items) \<subseteq> fst ` set items"
  by (auto simp: placement_order_def) force

lemma within_reach_mono: "within_reach x y i j r \<Longrightarrow> r \<le> r' \<Longrightarrow> within_reach x y i j r'"
  by (simp add: within_reach_def)

lemma distance_sym: "distance x y i j = distance i j x y"
  by (simp add: distance_def power2_commute)

lemma edge_ok_reach:
  assumes inv: "gen_inv grid loc_to_id n M placed"
    and nn: "\<forall>a \<in> set placed. 0 \<le> reach a"
    and e: "edge_ok grid loc_to_id a b"
  shows "\<exists>ca cb. (ca, a) \<in> set loc_to_id \<and> (cb, b) \<in> set loc_to_id
           \<and> a < length placed \<and> b < length placed
           \<and> (distance (fst ca) (snd ca) (fst cb) (snd cb) \<le> real_of_int (reach (placed ! a))
              \<or> distance (fst ca) (snd ca) (fst cb) (snd cb) \<le> real_of_int (reach (placed ! b)))"
proof -
  from inv have ent: "\<And>c k. (c, k) \<in> set loc_to_id \<Longrightarrow>
                k < n \<and> cells grid c = word_of_int (reach (placed ! k))"
    and len: "n = length placed"
    unfolding gen_inv_def by auto
  from e obtain ca cb where c: "(ca, a) \<in> set loc_to_id" "(cb, b) \<in> set loc_to_id"
    and w: "within_reach (fst ca) (snd ca) (fst cb) (snd cb) (uint (cells grid ca)) \<or>
            within_reach (fst ca) (snd ca) (fst cb) (snd cb) (uint (cells grid cb))"
    unfolding edge_ok_def by blast
  from ent[OF c(1)] ent[OF c(2)] len have l: "a < length placed" "b < length placed"
    and s: "cells grid ca = word_of_int (reach (placed ! a))"
           "cells grid cb = word_of_int (reach (placed ! b))" by simp_all
  from l nn have "0 \<le> reach (placed ! a)" "0 \<le> reach (placed ! b)" by simp_all
  then have "uint (cells grid ca) \<le> reach (placed ! a)" "uint (cells grid cb) \<le> reach (placed ! b)"
    unfolding s by (simp_all add: stored_reach_le)
  with w have "within_reach (fst ca) (snd ca) (fst cb) (snd cb) (reach (placed ! a)) \<or>
               within_reach (fst ca) (snd ca) (fst cb) (snd cb) (reach (placed ! b))"
    by (blast intro: within_reach_mono)
  with c l show ?thesis unfolding within_reach_def by blast
qed

section \<open>The connectivity test\<close>

lemma plain_bfs_reach:
  "set seen \<subseteq> (edge_rel g)\<^sup>* `` {s} \<Longrightarrow> set (plain_bfs g k seen) \<subseteq> (edge_rel g)\<^sup>* `` {s}"
proof (induction k arbitrary: seen)
  case 0
  then show ?case by simp
next
  case (Suc k)
  have "set (remdups (seen @ concat (map (adj g) seen))) \<subseteq> (edge_rel g)\<^sup>* `` {s}"
  proof
    fix v assume "v \<in> set (remdups (seen @ concat (map (adj g) seen)))"
    then consider "v \<in> set seen" | w where "w \<in> set seen" "v \<in> set (adj g w)" by auto
    then show "v \<in> (edge_rel g)\<^sup>* `` {s}"
    proof cases
      case 1
      with Suc.prems show ?thesis by blast
    next
      case 2
      from 2(1) Suc.prems have "(s, w) \<in> (edge_rel g)\<^sup>*" by blast
      moreover from 2(2) have "(w, v) \<in> edge_rel g" by (simp add: edge_rel_def)
      ultimately show ?thesis by (auto intro: rtrancl_into_rtrancl)
    qed
  qed
  from Suc.IH[OF this] show ?case by simp
qed

lemma plain_bfs_distinct: "distinct seen \<Longrightarrow> distinct (plain_bfs g k seen)"
  by (induction k arbitrary: seen) simp_all

lemma plain_bfs_nodes:
  "wf_graph g \<Longrightarrow> set seen \<subseteq> set (nodes g) \<Longrightarrow> set (plain_bfs g k seen) \<subseteq> set (nodes g)"
proof (induction k arbitrary: seen)
  case 0
  then show ?case by simp
next
  case (Suc k)
  have "set (remdups (seen @ concat (map (adj g) seen))) \<subseteq> set (nodes g)"
  proof
    fix v assume "v \<in> set (remdups (seen @ concat (map (adj g) seen)))"
    then consider "v \<in> set seen" | w where "w \<in> set seen" "v \<in> set (adj g w)" by auto
    then show "v \<in> set (nodes g)"
    proof cases
      case 1
      with Suc.prems(2) show ?thesis by blast
    next
      case 2
      from 2(2) have "(w, v) \<in> edge_rel g" by (simp add: edge_rel_def)
      with Suc.prems(1) show ?thesis unfolding wf_graph_def by blast
    qed
  qed
  from Suc.IH[OF Suc.prems(1) this] show ?case by simp
qed

lemma is_connected_sound:
  assumes "wf_graph g" "is_connected g = Inr True"
  shows "connected_graph g"
proof -
  let ?E = "edge_rel g"
  from assms(2) obtain s rest where n: "nodes g = s # rest"
    by (auto simp: is_connected_def split: list.splits)
  let ?B = "plain_bfs g (length (nodes g)) [s]"
  from assms(2) n have len: "length ?B = length (nodes g)"
    by (simp add: is_connected_def)
  have dB: "distinct ?B" by (rule plain_bfs_distinct) simp
  have dN: "distinct (nodes g)" using assms(1) by (simp add: wf_graph_def)
  have sub: "set ?B \<subseteq> set (nodes g)" using n by (intro plain_bfs_nodes[OF assms(1)]) simp
  have "card (set ?B) = card (set (nodes g))"
    using len dB dN by (simp add: distinct_card)
  with sub have eq: "set ?B = set (nodes g)" by (intro card_subset_eq) simp_all
  have "set ?B \<subseteq> ?E\<^sup>* `` {s}" by (rule plain_bfs_reach) simp
  with eq have from_s: "\<And>v. v \<in> set (nodes g) \<Longrightarrow> (s, v) \<in> ?E\<^sup>*" by blast
  have symE: "sym (?E\<^sup>*)" using assms(1) by (simp add: wf_graph_def sym_rtrancl)
  have "(u, v) \<in> ?E\<^sup>*" if "u \<in> set (nodes g)" "v \<in> set (nodes g)" for u v
  proof -
    have "(u, s) \<in> ?E\<^sup>*" using from_s[OF that(1)] symE by (blast dest: symD)
    moreover have "(s, v) \<in> ?E\<^sup>*" by (rule from_s[OF that(2)])
    ultimately show ?thesis by (rule rtrancl_trans)
  qed
  with n show ?thesis by (simp add: connected_graph_def)
qed

lemma attempts_safe:
  assumes "0 < fst grid_size" "0 < snd grid_size" "0 < sum_list (map snd items)"
  shows "case attempts k items grid_size True rand of
           Raised e \<Rightarrow> False
         | Pending \<Rightarrow> True
         | Returned None \<Rightarrow> True
         | Returned (Some (G, layout, colors)) \<Rightarrow> connected_graph G"
proof (induction k arbitrary: rand)
  case 0
  show ?case by simp
next
  case (Suc k)
  show ?case
  proof (cases "attempt items grid_size rand")
    case (Returned t)
    obtain G layout colors grid loc_to_id rand1 where
      t: "t = (G, layout, colors, grid, loc_to_id, rand1)" by (cases t) auto
    from attempt_Returned(1)[OF Returned[unfolded t]] obtain M where
      G: "G = graph_of_matrix (sum_list (map snd items)) M" by blast
    have w: "wf_graph G" by (simp add: G wf_graph_of_matrix)
    define n where "n = sum_list (map snd items)"
    have "0 < n" unfolding n_def by (rule assms(3))
    moreover have "nodes G = [0..<n]" unfolding n_def G by (rule nodes_graph_of_matrix)
    ultimately have "nodes G \<noteq> []" by simp
    then have "\<exists>b. is_connected G = Inr b"
      by (cases "nodes G") (simp_all add: is_connected_def)
    then obtain b where b: "is_connected G = Inr b" by blast
    show ?thesis
    proof (cases b)
      case True
      with b have "connected_graph G" using is_connected_sound[OF w] by simp
      with Returned t b True show ?thesis by simp
    next
      case False
      with Returned t b Suc.IH[of rand1] show ?thesis by simp
    qed
  next
    case (Raised e)
    with attempt_not_Raised[OF assms(1,2)] show ?thesis by simp
  next
    case Pending
    then show ?thesis by simp
  qed
qed

lemma set_bfs_round:
  "set (remdups (seen @ concat (map (adj g) seen))) = set seen \<union> edge_rel g `` set seen"
  by (auto simp: edge_rel_def)

lemma plain_bfs_grows: "set seen \<subseteq> set (plain_bfs g k seen)"
proof (induction k arbitrary: seen)
  case 0
  show ?case by simp
next
  case (Suc k)
  have "set seen \<subseteq> set (remdups (seen @ concat (map (adj g) seen)))" by auto
  also have "\<dots> \<subseteq> set (plain_bfs g k (remdups (seen @ concat (map (adj g) seen))))"
    by (rule Suc.IH)
  finally show ?case by simp
qed

lemma plain_bfs_closed_stays:
  "edge_rel g `` set seen \<subseteq> set seen \<Longrightarrow> set (plain_bfs g k seen) = set seen"
proof (induction k arbitrary: seen)
  case 0
  show ?case by simp
next
  case (Suc k)
  let ?next = "remdups (seen @ concat (map (adj g) seen))"
  have s: "set ?next = set seen" unfolding set_bfs_round using Suc.prems by blast
  with Suc.prems have "edge_rel g `` set ?next \<subseteq> set ?next" by simp
  from Suc.IH[OF this] s show ?case by simp
qed

lemma plain_bfs_closes:
  assumes "finite V" "edge_rel g `` V \<subseteq> V"
  shows "set seen \<subseteq> V \<Longrightarrow> card V \<le> card (set seen) + k \<Longrightarrow>
         edge_rel g `` set (plain_bfs g k seen) \<subseteq> set (plain_bfs g k seen)"
proof (induction k arbitrary: seen)
  case 0
  then have "set seen = V" using assms(1) by (intro card_seteq) simp_all
  with assms(2) show ?case by simp
next
  case (Suc k)
  let ?next = "remdups (seen @ concat (map (adj g) seen))"
  have s: "set ?next = set seen \<union> edge_rel g `` set seen" by (rule set_bfs_round)
  show ?case
  proof (cases "edge_rel g `` set seen \<subseteq> set seen")
    case True
    from plain_bfs_closed_stays[OF True, of "Suc k"] True show ?thesis by simp
  next
    case False
    have sub: "set ?next \<subseteq> V" unfolding s using Suc.prems(1) assms(2) by blast
    have "set seen \<subset> set ?next" unfolding s using False by blast
    moreover have "finite (set ?next)" by simp
    ultimately have "card (set seen) < card (set ?next)" by (rule psubset_card_mono[rotated])
    with Suc.prems(2) have "card V \<le> card (set ?next) + k" by simp
    from Suc.IH[OF sub this] show ?thesis by simp
  qed
qed

lemma closed_contains_reachable:
  assumes "edge_rel g `` S \<subseteq> S" "s \<in> S" "(s, v) \<in> (edge_rel g)\<^sup>*"
  shows "v \<in> S"
  using assms(3,1,2) by (induction rule: rtrancl_induct) auto

lemma is_connected_complete:
  assumes "wf_graph g" "connected_graph g"
  shows "is_connected g = Inr True"
proof -
  from assms(2) obtain s rest where n: "nodes g = s # rest"
    by (cases "nodes g") (auto simp: connected_graph_def)
  let ?V = "set (nodes g)"
  let ?B = "plain_bfs g (length (nodes g)) [s]"
  have cl: "edge_rel g `` ?V \<subseteq> ?V" using assms(1) unfolding wf_graph_def by blast
  have dN: "distinct (nodes g)" using assms(1) by (simp add: wf_graph_def)
  have "card ?V \<le> card (set [s]) + length (nodes g)" using dN by (simp add: distinct_card)
  moreover have "set [s] \<subseteq> ?V" using n by simp
  ultimately have closed: "edge_rel g `` set ?B \<subseteq> set ?B"
    by (intro plain_bfs_closes[of ?V]) (simp_all add: cl)
  have sB: "s \<in> set ?B" using plain_bfs_grows[of "[s]" g "length (nodes g)"] by simp
  have "v \<in> set ?B" if "v \<in> ?V" for v
  proof -
    from assms(2) that n have "(s, v) \<in> (edge_rel g)\<^sup>*" by (auto simp: connected_graph_def)
    from closed_contains_reachable[OF closed sB this] show ?thesis .
  qed
  moreover have "set ?B \<subseteq> ?V" using n by (intro plain_bfs_nodes[OF assms(1)]) simp
  ultimately have "set ?B = ?V" by blast
  moreover have "distinct ?B" by (rule plain_bfs_distinct) simp
  ultimately have "length ?B = length (nodes g)" using dN by (metis distinct_card)
  with n show ?thesis by (simp add: is_connected_def)
qed

lemma is_connected_iff:
  assumes "wf_graph g" "nodes g \<noteq> []"
  shows "is_connected g = Inr (connected_graph g)"
proof -
  from assms(2) obtain b where b: "is_connected g = Inr b"
    by (cases "nodes g") (simp_all add: is_connected_def)
  show ?thesis
  proof (cases b)
    case True
    with b is_connected_sound[OF assms(1)] show ?thesis by simp
  next
    case False
    with b is_connected_complete[OF assms(1)] show ?thesis by auto
  qed
qed

section \<open>Facts about the serializer\<close>

lemma assign_id_dom: "dom (fst (assign_id st n)) = insert n (dom (fst st))"
  by (cases st) (auto simp: assign_id_def)

lemma edge_lines_never_raises:
  "\<exists>out'. edge_lines es st out
           = (out', Inr (foldl (\<lambda>st e. assign_id (assign_id st (fst e)) (snd e)) st es))"
proof (induction es arbitrary: st out)
  case Nil
  show ?case by simp
next
  case (Cons e es)
  let ?st2 = "assign_id (assign_id st (fst e)) (snd e)"
  have d: "fst e \<in> dom (fst ?st2)" "snd e \<in> dom (fst ?st2)"
    by (simp_all add: assign_id_dom)
  then obtain i j where ij: "fst ?st2 (fst e) = Some i" "fst ?st2 (snd e) = Some j" by blast
  from Cons.IH[of ?st2 "out @ [EdgeLine i j]"] ij show ?case
    by (simp add: Let_def dict_get_def)
qed

lemma node_ids_dom: "dom (fst (node_ids G)) = fst ` set (edges G) \<union> snd ` set (edges G)"
proof -
  have "dom (fst (foldl (\<lambda>st e. assign_id (assign_id st (fst e)) (snd e)) st es))
        = dom (fst st) \<union> fst ` set es \<union> snd ` set es" for st :: "('a \<rightharpoonup> nat) \<times> nat" and es
    by (induction es arbitrary: st) (auto simp: assign_id_dom)
  then show ?thesis by (simp add: node_ids_def)
qed

lemma layout_lines_raises_iff:
  "snd (layout_lines ns pos node_to_id out) = (if set ns \<subseteq> dom node_to_id then None else Some KeyError)"
  by (induction ns arbitrary: out) (auto simp: dict_get_def split: option.splits)

lemma output_graph_raises_iff:
  "snd (output_graph G (pos :: 'a \<Rightarrow> 'c))
   = (if set (nodes G) \<subseteq> fst ` set (edges G) \<union> snd ` set (edges G) then None else Some KeyError)"
proof -
  obtain out1 :: "'c line list"
    where e: "edge_lines (edges G) (Map.empty, 0) [NodeCount (length (nodes G))]
        = (out1, Inr (node_ids G))"
    using edge_lines_never_raises[of "edges G" "(Map.empty, 0)"
        "[NodeCount (length (nodes G)) :: 'c line]"]
    by (auto simp: node_ids_def)
  obtain m cur where n: "node_ids G = (m, cur)" by (cases "node_ids G")
  from node_ids_dom[of G] n have d: "dom m = fst ` set (edges G) \<union> snd ` set (edges G)" by simp
  obtain out2 r where l: "layout_lines (nodes G) pos m (out1 @ [Blank]) = (out2, r)"
    by (cases "layout_lines (nodes G) pos m (out1 @ [Blank])")
  from layout_lines_raises_iff[of "nodes G" pos m "out1 @ [Blank]"] l d
  have r: "r = (if set (nodes G) \<subseteq> fst ` set (edges G) \<union> snd ` set (edges G) then None else Some KeyError)"
    by simp
  show ?thesis
    unfolding output_graph_def e n using l r by (auto split: option.splits)
qed

lemma isolated_node_raises:
  assumes "wf_graph G" "n \<in> set (nodes G)" "adj G n = []"
  shows "snd (output_graph G pos) = Some KeyError"
proof -
  have "n \<notin> fst ` set (edges G) \<union> snd ` set (edges G)"
  proof
    assume "n \<in> fst ` set (edges G) \<union> snd ` set (edges G)"
    then obtain v where "(n, v) \<in> set (edges G) \<or> (v, n) \<in> set (edges G)" by force
    then have "(n, v) \<in> set (edges G) \<union> (set (edges G))\<inverse>" by blast
    then have "(n, v) \<in> edge_rel G" unfolding edges_sym_closure[OF assms(1)] .
    with assms(3) show False by (simp add: edge_rel_def)
  qed
  with assms(2) show ?thesis unfolding output_graph_raises_iff by auto
qed

section \<open>Facts about the entry point\<close>

lemma main_usage:
  assumes "length argv < 3" "argv = prog # args"
  shows "main to_int pos argv
         = ([Text (''Usage: '' @ prog @ '' <num-big-components> <big-component-size> <gate-size>'')],
            Inr None)"
  using assms by (simp add: main_def)

lemma main_three_words_raises:
  assumes "length argv = 3"
  shows "main to_int pos argv = ([], Inl IndexError) \<or> main to_int pos argv = ([], Inl ValueError)"
  using assms by (simp add: main_def split: option.splits)

section \<open>The attempts one call makes\<close>

lemma attempts_trace:
  assumes "0 < fst grid_size" "0 < snd grid_size" "0 < sum_list (map snd items)"
  shows "case attempts k items grid_size True rand of
           Raised e \<Rightarrow> False
         | Pending \<Rightarrow> True
         | Returned None \<Rightarrow>
             (\<exists>Gs rand'. attempt_run k items grid_size rand = Some (Gs, rand')
                \<and> length Gs = k \<and> (\<forall>G' \<in> set Gs. \<not> connected_graph G'))
         | Returned (Some (G, layout, colors)) \<Rightarrow>
             connected_graph G
             \<and> (\<exists>j Gs rand_j grid loc_to_id rand'.
                   j < k \<and> attempt_run j items grid_size rand = Some (Gs, rand_j)
                   \<and> length Gs = j \<and> (\<forall>G' \<in> set Gs. \<not> connected_graph G')
                   \<and> attempt items grid_size rand_j
                       = Returned (G, layout, colors, grid, loc_to_id, rand'))"
proof (induction k arbitrary: rand)
  case 0
  show ?case by simp
next
  case (Suc k)
  show ?case
  proof (cases "attempt items grid_size rand")
    case (Returned t)
    obtain G1 layout1 colors1 grid1 l2i1 rand1 where
      t: "t = (G1, layout1, colors1, grid1, l2i1, rand1)" by (cases t) auto
    note a = Returned[unfolded t]
    from attempt_Returned(1)[OF a] obtain M where
      G: "G1 = graph_of_matrix (sum_list (map snd items)) M" by blast
    have w: "wf_graph G1" by (simp add: G wf_graph_of_matrix)
    define n where "n = sum_list (map snd items)"
    have "0 < n" unfolding n_def by (rule assms(3))
    moreover have "nodes G1 = [0..<n]" unfolding n_def G by (rule nodes_graph_of_matrix)
    ultimately have ne: "nodes G1 \<noteq> []" by simp
    have c: "is_connected G1 = Inr (connected_graph G1)" by (rule is_connected_iff[OF w ne])
    show ?thesis
    proof (cases "connected_graph G1")
      case True
      have r: "attempts (Suc k) items grid_size True rand = Returned (Some (G1, layout1, colors1))"
        using a c True by simp
      have "0 < Suc k \<and> attempt_run 0 items grid_size rand = Some ([], rand)
            \<and> length ([] :: nat graph list) = 0 \<and> (\<forall>G' \<in> set ([] :: nat graph list). \<not> connected_graph G')
            \<and> attempt items grid_size rand = Returned (G1, layout1, colors1, grid1, l2i1, rand1)"
        using a by simp
      then have "\<exists>j Gs rand_j grid loc_to_id rand'.
                   j < Suc k \<and> attempt_run j items grid_size rand = Some (Gs, rand_j)
                   \<and> length Gs = j \<and> (\<forall>G' \<in> set Gs. \<not> connected_graph G')
                   \<and> attempt items grid_size rand_j
                       = Returned (G1, layout1, colors1, grid, loc_to_id, rand')"
        by blast
      with True r show ?thesis by simp
    next
      case False
      have r: "attempts (Suc k) items grid_size True rand = attempts k items grid_size True rand1"
        using a c False by simp
      show ?thesis
      proof (cases "attempts k items grid_size True rand1")
        case (Returned res)
        show ?thesis
        proof (cases res)
          case None
          with Suc.IH[of rand1] Returned obtain Gs rand' where
            g: "attempt_run k items grid_size rand1 = Some (Gs, rand')" "length Gs = k"
            "\<forall>G' \<in> set Gs. \<not> connected_graph G'" by auto
          have "attempt_run (Suc k) items grid_size rand = Some (G1 # Gs, rand')
                \<and> length (G1 # Gs) = Suc k \<and> (\<forall>G' \<in> set (G1 # Gs). \<not> connected_graph G')"
            using a g False by simp
          then have "\<exists>Gs rand'. attempt_run (Suc k) items grid_size rand = Some (Gs, rand')
                \<and> length Gs = Suc k \<and> (\<forall>G' \<in> set Gs. \<not> connected_graph G')"
            by blast
          with r Returned None show ?thesis by simp
        next
          case (Some t2)
          obtain G layout colors where t2: "t2 = (G, layout, colors)" by (cases t2)
          from Suc.IH[of rand1] Returned Some t2 obtain j Gs rand_j grid loc_to_id rand' where
            cg: "connected_graph G" and
            g: "j < k" "attempt_run j items grid_size rand1 = Some (Gs, rand_j)" "length Gs = j"
            "\<forall>G' \<in> set Gs. \<not> connected_graph G'"
            "attempt items grid_size rand_j = Returned (G, layout, colors, grid, loc_to_id, rand')"
            by auto
          have "Suc j < Suc k \<and> attempt_run (Suc j) items grid_size rand = Some (G1 # Gs, rand_j)
                \<and> length (G1 # Gs) = Suc j \<and> (\<forall>G' \<in> set (G1 # Gs). \<not> connected_graph G')
                \<and> attempt items grid_size rand_j = Returned (G, layout, colors, grid, loc_to_id, rand')"
            using a g False by simp
          then have "\<exists>j Gs rand_j grid loc_to_id rand'.
                   j < Suc k \<and> attempt_run j items grid_size rand = Some (Gs, rand_j)
                   \<and> length Gs = j \<and> (\<forall>G' \<in> set Gs. \<not> connected_graph G')
                   \<and> attempt items grid_size rand_j
                       = Returned (G, layout, colors, grid, loc_to_id, rand')"
            by blast
          with cg r Returned Some t2 show ?thesis by simp
        qed
      next
        case (Raised e)
        with Suc.IH[of rand1] show ?thesis by simp
      next
        case Pending
        with r show ?thesis by simp
      qed
    qed
  next
    case (Raised e)
    with attempt_not_Raised[OF assms(1,2)] show ?thesis by simp
  next
    case Pending
    then show ?thesis by simp
  qed
qed

lemma retry_uses_second_attempt:
  "(case attempt [(\<lparr>color = ColorName ''green'', reach = 1\<rparr>, 2)] (3, 3) [0, 0, 2, 2, 0, 0, 1, 0] of
      Returned (G, layout, colors, grid, loc_to_id, rand') \<Rightarrow>
        is_connected G = Inr False \<and> rand' = [0, 0, 1, 0]
    | _ \<Rightarrow> False)"
  by code_simp

section \<open>Properties of the clique-gate composer\<close>


lemma valid_sizes:
  assumes "2 \<le> gs" "even gs" "gs div 2 \<le> bcs"
  shows "0 < gs" "0 < bcs" "nat gs div 2 \<le> nat bcs" "nat gs - nat gs div 2 \<le> nat bcs"
    "0 < nat gs div 2"
proof -
  from assms(2) obtain t where t: "gs = 2 * t" by (auto elim: evenE)
  with assms(1) have t1: "1 \<le> t" by simp
  show "0 < gs" using assms(1) by simp
  show "0 < bcs" using assms(3) t t1 by simp
  have n: "nat gs = 2 * nat t" using t t1 by (simp add: nat_mult_distrib)
  show "nat gs div 2 \<le> nat bcs" using assms(3) t t1 by (simp add: n)
  show "nat gs - nat gs div 2 \<le> nat bcs" using assms(3) t t1 by (simp add: n)
  show "0 < nat gs div 2" using t1 by (simp add: n)
qed

text \<open>
  Claim C2. For \<open>num_big_components \<ge> 2\<close>, \<open>big_component_size \<ge> 1\<close> and an even
  \<open>gate_size \<ge> 2\<close> with \<open>gate_size / 2 \<le> big_component_size\<close>, the composer returns a graph
  (it raises nothing) whose node list has no repetition and has exactly
  \<open>num_big_components * big_component_size + C(num_big_components, 2) * gate_size\<close> entries.
\<close>

theorem clique_gate_node_count:
  assumes "2 \<le> num_big_components" "1 \<le> big_component_size" "2 \<le> gate_size" "even gate_size"
    and "gate_size div 2 \<le> big_component_size"
  shows "\<exists>g. make_complete_clique_gate_graph num_big_components big_component_size gate_size = Inr g
           \<and> distinct (nodes g)
           \<and> int (length (nodes g))
               = num_big_components * big_component_size
                 + int (nat num_big_components choose 2) * gate_size"
proof -
  let ?m = "nat num_big_components"
  note v = valid_sizes[OF assms(3,4,5)]
  have n: "num_big_components = int ?m" using assms(1) by simp
  have "make_complete_clique_gate_graph (int ?m) big_component_size gate_size
        = Inr (master_of ?m big_component_size gate_size)"
    by (rule make_eq[OF v(1,2,3,4)])
  moreover have "distinct (nodes (master_of ?m big_component_size gate_size))"
    using wf_master by (simp add: wf_graph_def)
  moreover have "int (length (nodes (master_of ?m big_component_size gate_size)))
        = int ?m * big_component_size + int (?m choose 2) * gate_size"
    by (rule length_nodes_master[OF v(1,2,3)])
  ultimately show ?thesis using n by simp
qed

theorem clique_gate_node_count_witness:
  "(2::int) \<le> 2 \<and> (1::int) \<le> 3 \<and> (2::int) \<le> 2 \<and> even (2::int) \<and> (2::int) div 2 \<le> 3
   \<and> (\<exists>g. make_complete_clique_gate_graph 2 3 2 = Inr g \<and> distinct (nodes g)
          \<and> int (length (nodes g)) = 8)"
  using clique_gate_node_count[of 2 3 2] by simp


text \<open>
  Claim C1. For \<open>num_big_components \<ge> 2\<close>, \<open>big_component_size \<ge> 1\<close> and an even
  \<open>gate_size \<ge> 2\<close> with \<open>gate_size / 2 \<le> big_component_size\<close>, the composer returns one
  connected graph. It is built from exactly \<open>C(num_big_components, 2)\<close> gates and
  \<open>num_big_components\<close> big components; every gate is a complete graph on \<open>gate_size\<close>
  nodes and every big component a complete graph on \<open>big_component_size\<close> nodes, both as
  built and inside the result, and no two of these cliques share a node.
\<close>

theorem clique_gate_structure:
  assumes "2 \<le> num_big_components" "1 \<le> big_component_size" "2 \<le> gate_size" "even gate_size"
    and "gate_size div 2 \<le> big_component_size"
  shows "\<exists>g gates big_comps.
           make_complete_clique_gate_graph num_big_components big_component_size gate_size = Inr g
           \<and> gates_of num_big_components gate_size = Inr gates
           \<and> big_comps_of num_big_components big_component_size gate_size = Inr big_comps
           \<and> length gates = nat num_big_components choose 2
           \<and> length big_comps = nat num_big_components
           \<and> (\<forall>c \<in> set gates. is_clique_in g c (nat gate_size))
           \<and> (\<forall>c \<in> set big_comps. is_clique_in g c (nat big_component_size))
           \<and> disjoint_cliques (gates @ big_comps)
           \<and> connected_graph g"
proof -
  let ?m = "nat num_big_components"
  let ?G = "?m choose 2"
  let ?gates = "map (gate_graph gate_size) [0..<?G]"
  let ?comps = "map (comp_graph ?G big_component_size gate_size) [0..<?m]"
  let ?g = "master_of ?m big_component_size gate_size"
  note v = valid_sizes[OF assms(3,4,5)]
  have n: "num_big_components = int ?m" and m2: "2 \<le> ?m" using assms(1) by simp_all
  have 1: "make_complete_clique_gate_graph num_big_components big_component_size gate_size = Inr ?g"
    using make_eq[OF v(1,2,3,4), of ?m] n by simp
  have 2: "gates_of num_big_components gate_size = Inr ?gates"
    using gates_of_eq[OF v(1), of ?m] n by (simp add: gate_graph_def[abs_def])
  have 3: "big_comps_of num_big_components big_component_size gate_size = Inr ?comps"
    using big_comps_of_eq[OF v(1,2), of ?m] n by (simp add: comp_graph_def[abs_def])
  have 4: "\<forall>c \<in> set ?gates. is_clique_in ?g c (nat gate_size)"
    using gate_is_clique[OF v(1,2,3)] by auto
  have 5: "\<forall>c \<in> set ?comps. is_clique_in ?g c (nat big_component_size)"
    using comp_is_clique[OF v(1,2,3)] by auto
  have 6: "disjoint_cliques (?gates @ ?comps)" by (rule cliques_disjoint[OF v(1,2)])
  have 7: "connected_graph ?g" by (rule master_connected[OF v(1,2,3,5) m2])
  have 8: "length ?gates = ?G" "length ?comps = ?m" by simp_all
  from 1 2 3 4 5 6 7 8 show ?thesis by blast
qed

theorem clique_gate_structure_witness:
  "(2::int) \<le> 2 \<and> (1::int) \<le> 3 \<and> (2::int) \<le> 2 \<and> even (2::int) \<and> (2::int) div 2 \<le> 3
   \<and> (\<exists>g gates big_comps.
           make_complete_clique_gate_graph 2 3 2 = Inr g
           \<and> gates_of 2 2 = Inr gates
           \<and> big_comps_of 2 3 2 = Inr big_comps
           \<and> length gates = 1
           \<and> length big_comps = 2
           \<and> (\<forall>c \<in> set gates. is_clique_in g c 2)
           \<and> (\<forall>c \<in> set big_comps. is_clique_in g c 3)
           \<and> disjoint_cliques (gates @ big_comps)
           \<and> connected_graph g)"
  using clique_gate_structure[of 2 3 2] by simp


text \<open>
  Claim C10. On the same valid inputs, the result has no edge between nodes of two distinct big
  components and none between nodes of two distinct gates; every edge joins two nodes of one
  clique or a gate node and a big-component node; and every gate node is adjacent to exactly
  one node outside its own gate.
\<close>

theorem clique_gate_edge_discipline:
  assumes "2 \<le> num_big_components" "1 \<le> big_component_size" "2 \<le> gate_size" "even gate_size"
    and "gate_size div 2 \<le> big_component_size"
  shows "\<exists>g gates big_comps.
           make_complete_clique_gate_graph num_big_components big_component_size gate_size = Inr g
           \<and> gates_of num_big_components gate_size = Inr gates
           \<and> big_comps_of num_big_components big_component_size gate_size = Inr big_comps
           \<and> no_edge_between g big_comps
           \<and> no_edge_between g gates
           \<and> edges_classified g gates big_comps
           \<and> one_exit_per_gate_node g gates"
proof -
  let ?m = "nat num_big_components"
  let ?G = "?m choose 2"
  let ?gates = "map (gate_graph gate_size) [0..<?G]"
  let ?comps = "map (comp_graph ?G big_component_size gate_size) [0..<?m]"
  let ?g = "master_of ?m big_component_size gate_size"
  note v = valid_sizes[OF assms(3,4,5)]
  have n: "num_big_components = int ?m" using assms(1) by simp
  have 1: "make_complete_clique_gate_graph num_big_components big_component_size gate_size = Inr ?g"
    using make_eq[OF v(1,2,3,4), of ?m] n by simp
  have 2: "gates_of num_big_components gate_size = Inr ?gates"
    using gates_of_eq[OF v(1), of ?m] n by (simp add: gate_graph_def[abs_def])
  have 3: "big_comps_of num_big_components big_component_size gate_size = Inr ?comps"
    using big_comps_of_eq[OF v(1,2), of ?m] n by (simp add: comp_graph_def[abs_def])
  note 4 = master_no_edge_between[OF v(1,2,3), of ?m]
  have 5: "edges_classified ?g ?gates ?comps" by (rule master_edges_classified[OF v(1,2,3)])
  have 6: "one_exit_per_gate_node ?g ?gates" by (rule master_one_exit[OF v(1,2,3,4)])
  from 1 2 3 4 5 6 show ?thesis by blast
qed

theorem clique_gate_edge_discipline_witness:
  "(2::int) \<le> 2 \<and> (1::int) \<le> 3 \<and> (2::int) \<le> 2 \<and> even (2::int) \<and> (2::int) div 2 \<le> 3
   \<and> (\<exists>g gates big_comps.
           make_complete_clique_gate_graph 2 3 2 = Inr g
           \<and> gates_of 2 2 = Inr gates
           \<and> big_comps_of 2 3 2 = Inr big_comps
           \<and> no_edge_between g big_comps
           \<and> no_edge_between g gates
           \<and> edges_classified g gates big_comps
           \<and> one_exit_per_gate_node g gates)"
  using clique_gate_edge_discipline[of 2 3 2] by simp


section \<open>Properties of the serializer and of the entry point\<close>

text \<open>
  Claim C5. The claim says that a node no edge mentions is left out of the output and that no
  error is raised. On the graph with the nodes 0, 1, 2 and the single edge between 0 and 1 the
  serializer prints the node count, the edge line, the blank line and the layout lines of the
  nodes 0 and 1, and then raises \<^verbatim>\<open>KeyError\<close> when the layout loop looks up node 2.
\<close>

theorem output_graph_isolated_node_raises:
  "output_graph (add_node (add_edge (empty_graph :: int graph) 0 1) 2) pos
   = ([NodeCount 3, EdgeLine 0 1, Blank, LayoutLine 0 (pos 0), LayoutLine 1 (pos 1)],
      Some KeyError)"
  by (simp add: output_graph_def edges_def add_node_def add_edge_def empty_graph_def Let_def
      assign_id_def dict_get_def)

text \<open>
  Claim C6. The claim says that fewer than three arguments after the program name give the
  usage message and a silent return. With exactly two arguments after the program name the
  length test \<^verbatim>\<open>len(argv) < 3\<close> does not fire, nothing is printed, and reading
  \<^verbatim>\<open>argv[3]\<close> raises \<^verbatim>\<open>IndexError\<close>.
\<close>

theorem main_two_arguments_raises:
  "main plain_decimal pos [''networkgen.py'', ''2'', ''3''] = ([], Inl IndexError)"
  by (simp add: main_def plain_decimal_def digit_of_def)

section \<open>Properties of the social-circles generator\<close>

text \<open>
  Claim C8, as amended. For an agent at cell \<open>(x, y)\<close> whose cell stores the reach \<open>r\<close>, the
  neighbour search started at \<open>(x, y)\<close> returns only cells \<open>(i, j)\<close> with
  \<open>max(0, x - r) \<le> i < min(dim_x - 1, x + r)\<close> and \<open>max(0, y - r) \<le> j < min(dim_y - 1, y + r)\<close>:
  a cell at coordinate exactly \<open>x + r\<close> or \<open>y + r\<close>, or in the last row or column of the
  grid, is never returned by that search.
\<close>

theorem search_box:
  assumes "(i, j) \<in> set (search_for_neighbors grid x y)"
  shows "max 0 (x - uint (cells grid (x, y))) \<le> i
         \<and> i < min (fst (shape grid) - 1) (x + uint (cells grid (x, y)))
         \<and> max 0 (y - uint (cells grid (x, y))) \<le> j
         \<and> j < min (snd (shape grid) - 1) (y + uint (cells grid (x, y)))
         \<and> i \<noteq> x + uint (cells grid (x, y)) \<and> j \<noteq> y + uint (cells grid (x, y))
         \<and> i \<noteq> fst (shape grid) - 1 \<and> j \<noteq> snd (shape grid) - 1"
  using search_for_neighbors_box(1-4)[OF assms] by auto

theorem search_box_witness:
  "(0, 0) \<in> set (search_for_neighbors \<lparr>shape = (3, 3), cells = (\<lambda>_. 0)((0, 0) := 1, (1, 0) := 1)\<rparr> 1 0)
   \<and> max 0 (1 - 1) \<le> (0::int) \<and> (0::int) < min (3 - 1) (1 + 1)
   \<and> (0::int) \<noteq> 1 + 1 \<and> (0::int) \<noteq> 3 - 1"
proof -
  let ?g = "\<lparr>shape = (3, 3), cells = (\<lambda>_. 0)((0, 0) := 1, (1, 0) := (1 :: 8 word))\<rparr>"
  have h: "(0, 0) \<in> set (search_for_neighbors ?g 1 0)" by code_simp
  from search_box[OF h] h show ?thesis by simp
qed

text \<open>
  Against claim C8 as stated (such cells "never produce an edge"): two agents of reach 1 on a
  3 by 3 grid, at \<open>(0, 0)\<close> and at \<open>(1, 0)\<close>. The cell \<open>(1, 0)\<close> is at coordinate \<open>x + r\<close> of the
  first agent and its search does not return it, yet the graph has the edge between the two:
  the search started at \<open>(1, 0)\<close> finds \<open>(0, 0)\<close>.
\<close>

theorem boundary_cell_gets_edge:
  "(case attempt [(\<lparr>color = ColorName ''green'', reach = 1\<rparr>, 2)] (3, 3) [0, 0, 1, 0] of
      Returned (G, layout, colors, grid, loc_to_id, rand') \<Rightarrow>
        map_of loc_to_id (0, 0) = Some 0 \<and> map_of loc_to_id (1, 0) = Some 1
        \<and> uint (cells grid (0, 0)) = 1
        \<and> (1, 0) \<notin> set (search_for_neighbors grid 0 0)
        \<and> (0, 1) \<in> edge_rel G
    | _ \<Rightarrow> False)"
  unfolding edge_rel_def by code_simp

text \<open>
  Claim C7. The claim says that the colour at position \<open>k\<close> is the colour of the agent with
  node identifier \<open>k\<close>. For the dict that lists green (reach 1) before purple (reach 2), one
  agent each, the purple agent is placed first and receives identifier 0 (its cell stores the
  reach 2), the green one receives identifier 1, and the colours in placement order are
  purple, green; the returned colours are green, purple, the order of the dict.
\<close>

theorem colors_in_dict_order:
  "(case attempt [(\<lparr>color = ColorName ''green'', reach = 1\<rparr>, 1),
                  (\<lparr>color = ColorName ''purple'', reach = 2\<rparr>, 1)] (4, 4) [0, 0, 1, 0] of
      Returned (G, layout, colors, grid, loc_to_id, rand') \<Rightarrow>
        colors = [ColorName ''green'', ColorName ''purple'']
        \<and> map_of loc_to_id (0, 0) = Some 0 \<and> cells grid (0, 0) = 2
        \<and> map_of loc_to_id (1, 0) = Some 1 \<and> cells grid (1, 0) = 1
    | _ \<Rightarrow> False)
   \<and> map color (placement_order [(\<lparr>color = ColorName ''green'', reach = 1\<rparr>, 1),
                                   (\<lparr>color = ColorName ''purple'', reach = 2\<rparr>, 1)])
       = [ColorName ''purple'', ColorName ''green'']"
  by code_simp

text \<open>
  Claim C9, as amended. A cell returned by \<^verbatim>\<open>choose_empty_spot\<close> lies in the grid and holds 0.
  If moreover no agent type that is placed has a reach that is a multiple of 256 (so that the
  stored reach is not 0), then at the end of an attempt the keys of \<^verbatim>\<open>loc_to_id\<close> are
  pairwise distinct cells, its identifiers are \<open>0, \<dots>, num_nodes - 1\<close> in insertion order, each
  once, these are the nodes of the graph, and the layout has one entry for each of them.
\<close>

theorem one_cell_per_agent:
  "(choose_empty_spot grid0 rand0 = Returned (x, y, rand1) \<longrightarrow>
      cells grid0 (x, y) = 0 \<and> 0 \<le> x \<and> x < fst (shape grid0) \<and> 0 \<le> y \<and> y < snd (shape grid0))
   \<and> (attempt agent_type_to_quantity grid_size rand
         = Returned (G, layout, colors, grid, loc_to_id, rand') \<longrightarrow>
       (\<forall>(agent, quantity) \<in> set agent_type_to_quantity. reach agent mod 256 \<noteq> 0 \<or> quantity = 0) \<longrightarrow>
         distinct (map fst loc_to_id)
         \<and> map snd loc_to_id = [0..<sum_list (map snd agent_type_to_quantity)]
         \<and> nodes G = [0..<sum_list (map snd agent_type_to_quantity)]
         \<and> map fst layout = [0..<sum_list (map snd agent_type_to_quantity)])"
proof (intro conjI impI)
  assume "choose_empty_spot grid0 rand0 = Returned (x, y, rand1)"
  from choose_empty_spot_Returned[OF this]
  show "cells grid0 (x, y) = 0" "0 \<le> x" "x < fst (shape grid0)" "0 \<le> y" "y < snd (shape grid0)"
    by simp_all
next
  let ?n = "sum_list (map snd agent_type_to_quantity)"
  assume a: "attempt agent_type_to_quantity grid_size rand
             = Returned (G, layout, colors, grid, loc_to_id, rand')"
    and nz: "\<forall>(agent, quantity) \<in> set agent_type_to_quantity. reach agent mod 256 \<noteq> 0 \<or> quantity = 0"
  from nz have "\<forall>(a, q) \<in> set agent_type_to_quantity. (word_of_int (reach a) :: 8 word) \<noteq> 0 \<or> q = 0"
    by (simp add: stored_reach_nonzero)
  from attempt_Returned(4)[OF a this] have d: "map snd loc_to_id = [0..<?n]"
    by (simp add: dense_inv_def)
  from attempt_Returned(1)[OF a] obtain M where G: "G = graph_of_matrix ?n M"
    and inv: "gen_inv grid loc_to_id ?n M (placement_order agent_type_to_quantity)" by blast
  show "distinct (map fst loc_to_id)" using inv by (simp add: gen_inv_def)
  show "map snd loc_to_id = [0..<?n]" by (rule d)
  show "nodes G = [0..<?n]" by (simp add: G nodes_graph_of_matrix)
  have "map fst layout = map snd loc_to_id"
    unfolding attempt_Returned(2)[OF a] by (simp add: case_prod_beta comp_def)
  with d show "map fst layout = [0..<?n]" by simp
qed

theorem one_cell_per_agent_witness:
  "\<exists>G layout colors grid loc_to_id rand'.
     choose_empty_spot \<lparr>shape = (3, 3), cells = (\<lambda>_. 0)((0, 0) := 1)\<rparr> [0, 0, 1, 0]
       = Returned (1, 0, [])
     \<and> cells \<lparr>shape = (3, 3), cells = (\<lambda>_. 0)((0, 0) := 1)\<rparr> (1, 0) = 0
     \<and> attempt [(\<lparr>color = ColorName ''green'', reach = 1\<rparr>, 2)] (3, 3) [0, 0, 1, 0]
       = Returned (G, layout, colors, grid, loc_to_id, rand')
     \<and> (\<forall>(agent, quantity) \<in> set [(\<lparr>color = ColorName ''green'', reach = 1\<rparr>, 2 :: nat)].
           reach agent mod 256 \<noteq> 0 \<or> quantity = 0)
     \<and> distinct (map fst loc_to_id) \<and> map snd loc_to_id = [0..<2]
     \<and> nodes G = [0..<2] \<and> map fst layout = [0..<2]"
proof -
  let ?items = "[(\<lparr>color = ColorName ''green'', reach = 1\<rparr>, 2 :: nat)]"
  let ?g = "\<lparr>shape = (3, 3), cells = (\<lambda>_. 0)((0, 0) := (1 :: 8 word))\<rparr>"
  have c: "choose_empty_spot ?g [0, 0, 1, 0] = Returned (1, 0, [])" by code_simp
  have "case attempt ?items (3, 3) [0, 0, 1, 0] of Returned _ \<Rightarrow> True | _ \<Rightarrow> False"
    by code_simp
  then obtain G layout colors grid loc_to_id rand' where
    a: "attempt ?items (3, 3) [0, 0, 1, 0] = Returned (G, layout, colors, grid, loc_to_id, rand')"
    by (auto split: outcome.splits)
  have h: "\<forall>(agent, quantity) \<in> set ?items. reach agent mod 256 \<noteq> 0 \<or> quantity = 0"
    by simp
  from one_cell_per_agent[of ?g "[0, 0, 1, 0]" 1 0 "[]" ?items "(3, 3)" "[0, 0, 1, 0]"
      G layout colors grid loc_to_id rand'] c a h
  have "cells ?g (1, 0) = 0 \<and> distinct (map fst loc_to_id) \<and> map snd loc_to_id = [0..<2]
        \<and> nodes G = [0..<2] \<and> map fst layout = [0..<2]"
    by simp
  with c a h show ?thesis by blast
qed

text \<open>
  Against claim C9 as stated: two agents of reach 256 (stored as 0 in the \<^verbatim>\<open>uint8\<close> cell), or
  of reach 0, both drawing the cell \<open>(0, 0)\<close>. The second placement takes the cell of the first;
  the graph has the nodes 0 and 1, but \<^verbatim>\<open>loc_to_id\<close> and the layout hold identifier 1 only.
\<close>

theorem zero_stored_reach_shares_cell:
  "(case attempt [(\<lparr>color = ColorName ''green'', reach = 256\<rparr>, 2)] (2, 2) [0, 0, 0, 0] of
      Returned (G, layout, colors, grid, loc_to_id, rand') \<Rightarrow>
        nodes G = [0, 1] \<and> loc_to_id = [((0, 0), 1)] \<and> map fst layout = [1]
    | _ \<Rightarrow> False)
   \<and> (case attempt [(\<lparr>color = ColorName ''green'', reach = 0\<rparr>, 2)] (2, 2) [0, 0, 0, 0] of
      Returned (G, layout, colors, grid, loc_to_id, rand') \<Rightarrow>
        nodes G = [0, 1] \<and> loc_to_id = [((0, 0), 1)] \<and> map fst layout = [1]
    | _ \<Rightarrow> False)
   \<and> (case make_social_circles_network [(\<lparr>color = ColorName ''green'', reach = 256\<rparr>, 2)]
              (2, 2) False 5 [0, 0, 0, 0] of
      Returned (Some (G, layout, colors)) \<Rightarrow> nodes G = [0, 1] \<and> map fst layout = [1]
    | _ \<Rightarrow> False)"
  by code_simp

text \<open>
  Claim C4. Agent types have non-negative reach. In a graph returned by the generator, the two
  ends \<open>u\<close> and \<open>v\<close> of any edge are agents whose cells, found in the returned layout under
  their identifiers, are at a Euclidean distance of at most the reach of the agent type of
  \<open>u\<close> or at most the reach of the agent type of \<open>v\<close>.
\<close>

theorem edges_within_reach:
  assumes "make_social_circles_network agent_type_to_quantity grid_size force_connected max_tries rand
           = Returned (Some (G, layout, colors))"
    and "\<forall>(agent, quantity) \<in> set agent_type_to_quantity. 0 \<le> reach agent"
    and "(u, v) \<in> edge_rel G"
  shows "\<exists>xu yu xv yv.
           (u, (2 * real_of_int xu / real_of_int (fst grid_size) - 1,
                2 * real_of_int yu / real_of_int (snd grid_size) - 1)) \<in> set layout
           \<and> (v, (2 * real_of_int xv / real_of_int (fst grid_size) - 1,
                   2 * real_of_int yv / real_of_int (snd grid_size) - 1)) \<in> set layout
           \<and> u < length (placement_order agent_type_to_quantity)
           \<and> v < length (placement_order agent_type_to_quantity)
           \<and> (distance xu yu xv yv \<le> real_of_int (reach (placement_order agent_type_to_quantity ! u))
              \<or> distance xu yu xv yv \<le> real_of_int (reach (placement_order agent_type_to_quantity ! v)))"
proof -
  let ?po = "placement_order agent_type_to_quantity"
  let ?n = "sum_list (map snd agent_type_to_quantity)"
  let ?co = "\<lambda>c :: int \<times> int. (2 * real_of_int (fst c) / real_of_int (fst grid_size) - 1,
                                2 * real_of_int (snd c) / real_of_int (snd grid_size) - 1)"
  from attempts_Some[OF assms(1)[unfolded make_social_circles_network_def]]
  obtain rand0 grid loc_to_id rand1 where
    a: "attempt agent_type_to_quantity grid_size rand0
        = Returned (G, layout, colors, grid, loc_to_id, rand1)" by blast
  from attempt_Returned(1)[OF a] obtain M where G: "G = graph_of_matrix ?n M"
    and inv: "gen_inv grid loc_to_id ?n M ?po" by blast
  have lay: "(k, ?co c) \<in> set layout" if "(c, k) \<in> set loc_to_id" for c k
    unfolding attempt_Returned(2)[OF a] using that by (force simp: case_prod_beta)
  have nn: "\<forall>a \<in> set ?po. 0 \<le> reach a"
    using assms(2) set_placement_order[of agent_type_to_quantity] by fastforce
  from inv have mat: "\<And>a b. M a b \<noteq> 0 \<Longrightarrow> edge_ok grid loc_to_id a b"
    unfolding gen_inv_def by auto
  from assms(3) have "M u v \<noteq> 0 \<or> M v u \<noteq> 0"
    unfolding G edge_rel_graph_of_matrix by auto
  then show ?thesis
  proof
    assume "M u v \<noteq> 0"
    from edge_ok_reach[OF inv nn mat[OF this]] obtain ca cb where
      c: "(ca, u) \<in> set loc_to_id" "(cb, v) \<in> set loc_to_id" "u < length ?po" "v < length ?po"
      "distance (fst ca) (snd ca) (fst cb) (snd cb) \<le> real_of_int (reach (?po ! u))
       \<or> distance (fst ca) (snd ca) (fst cb) (snd cb) \<le> real_of_int (reach (?po ! v))"
      by blast
    from lay[OF c(1)] lay[OF c(2)] c(3,4,5) show ?thesis
      by (intro exI[of _ "fst ca"] exI[of _ "snd ca"] exI[of _ "fst cb"] exI[of _ "snd cb"]) simp
  next
    assume "M v u \<noteq> 0"
    from edge_ok_reach[OF inv nn mat[OF this]] obtain ca cb where
      c: "(ca, v) \<in> set loc_to_id" "(cb, u) \<in> set loc_to_id" "v < length ?po" "u < length ?po"
      "distance (fst ca) (snd ca) (fst cb) (snd cb) \<le> real_of_int (reach (?po ! v))
       \<or> distance (fst ca) (snd ca) (fst cb) (snd cb) \<le> real_of_int (reach (?po ! u))"
      by blast
    have "distance (fst cb) (snd cb) (fst ca) (snd ca) = distance (fst ca) (snd ca) (fst cb) (snd cb)"
      by (rule distance_sym)
    with lay[OF c(1)] lay[OF c(2)] c(3,4,5) show ?thesis
      by (intro exI[of _ "fst cb"] exI[of _ "snd cb"] exI[of _ "fst ca"] exI[of _ "snd ca"]) auto
  qed
qed

theorem edges_within_reach_witness:
  "\<exists>G layout colors.
     make_social_circles_network [(\<lparr>color = ColorName ''green'', reach = 1\<rparr>, 2)] (3, 3) True 5
       [0, 0, 1, 0] = Returned (Some (G, layout, colors))
     \<and> (\<forall>(agent, quantity) \<in> set [(\<lparr>color = ColorName ''green'', reach = 1\<rparr>, 2 :: nat)].
           0 \<le> reach agent)
     \<and> (0, 1) \<in> edge_rel G
     \<and> (\<exists>xu yu xv yv.
           (0, (2 * real_of_int xu / real_of_int (fst (3 :: int, 3 :: int)) - 1,
                2 * real_of_int yu / real_of_int (snd (3 :: int, 3 :: int)) - 1)) \<in> set layout
           \<and> (1, (2 * real_of_int xv / real_of_int (fst (3 :: int, 3 :: int)) - 1,
                   2 * real_of_int yv / real_of_int (snd (3 :: int, 3 :: int)) - 1)) \<in> set layout
           \<and> 0 < length (placement_order [(\<lparr>color = ColorName ''green'', reach = 1\<rparr>, 2)])
           \<and> 1 < length (placement_order [(\<lparr>color = ColorName ''green'', reach = 1\<rparr>, 2)])
           \<and> (distance xu yu xv yv
                 \<le> real_of_int (reach (placement_order [(\<lparr>color = ColorName ''green'', reach = 1\<rparr>, 2)] ! 0))
              \<or> distance xu yu xv yv
                 \<le> real_of_int (reach (placement_order [(\<lparr>color = ColorName ''green'', reach = 1\<rparr>, 2)] ! 1))))"
proof -
  let ?items = "[(\<lparr>color = ColorName ''green'', reach = 1\<rparr>, 2 :: nat)]"
  have "case make_social_circles_network ?items (3, 3) True 5 [0, 0, 1, 0] of
          Returned (Some (G, layout, colors)) \<Rightarrow> 1 \<in> set (adj G 0) | _ \<Rightarrow> False"
    by code_simp
  then obtain G layout colors where
    r: "make_social_circles_network ?items (3, 3) True 5 [0, 0, 1, 0] = Returned (Some (G, layout, colors))"
    and e: "(0, 1) \<in> edge_rel G"
    by (auto simp: edge_rel_def split: outcome.splits option.splits)
  have h: "\<forall>(agent, quantity) \<in> set ?items. 0 \<le> reach agent" by simp
  from edges_within_reach[OF r h e] r h e show ?thesis by blast
qed

text \<open>
  Claim C3, as amended. With \<^verbatim>\<open>force_connected=True\<close>, positive grid dimensions, at least one
  requested agent and every reach from 0 to 255, a call of the generator raises no exception:
  it is still drawing random numbers, or it has returned. If it returned the failure signal
  \<open>None\<close>, it made exactly \<open>max_tries\<close> attempts (none when \<open>max_tries \<le> 0\<close>) and the graph of
  each was disconnected. If it returned a graph, that graph is connected and is the graph of
  an attempt that fewer than \<open>max_tries\<close> attempts preceded, the graph of each of them
  disconnected.
\<close>

theorem connected_or_none:
  assumes "0 < fst grid_size" "0 < snd grid_size" "0 < sum_list (map snd agent_type_to_quantity)"
    and "\<forall>(agent, quantity) \<in> set agent_type_to_quantity. 0 \<le> reach agent \<and> reach agent \<le> 255"
  shows "(case make_social_circles_network agent_type_to_quantity grid_size True max_tries rand of
            Raised e \<Rightarrow> False
          | Pending \<Rightarrow> True
          | Returned None \<Rightarrow>
              (\<exists>Gs rand'.
                 attempt_run (nat max_tries) agent_type_to_quantity grid_size rand = Some (Gs, rand')
                 \<and> length Gs = nat max_tries \<and> (\<forall>G' \<in> set Gs. \<not> connected_graph G'))
          | Returned (Some (G, layout, colors)) \<Rightarrow>
              connected_graph G
              \<and> (\<exists>j Gs rand_j grid loc_to_id rand'.
                    j < nat max_tries
                    \<and> attempt_run j agent_type_to_quantity grid_size rand = Some (Gs, rand_j)
                    \<and> length Gs = j \<and> (\<forall>G' \<in> set Gs. \<not> connected_graph G')
                    \<and> attempt agent_type_to_quantity grid_size rand_j
                        = Returned (G, layout, colors, grid, loc_to_id, rand')))
         \<and> (max_tries \<le> 0 \<longrightarrow>
              make_social_circles_network agent_type_to_quantity grid_size True max_tries rand
              = Returned None)"
  using attempts_trace[OF assms(1,2,3), of "nat max_tries" rand]
  by (simp add: make_social_circles_network_def)

theorem connected_or_none_witness:
  "(0::int) < fst (3 :: int, 3 :: int) \<and> (0::int) < snd (3 :: int, 3 :: int)
   \<and> 0 < sum_list (map snd [(\<lparr>color = ColorName ''green'', reach = 1\<rparr>, 2 :: nat)])
   \<and> 0 \<le> reach \<lparr>color = ColorName ''green'', reach = 1\<rparr>
   \<and> reach \<lparr>color = ColorName ''green'', reach = 1\<rparr> \<le> 255
   \<and> (\<exists>G layout colors.
         make_social_circles_network [(\<lparr>color = ColorName ''green'', reach = 1\<rparr>, 2)] (3, 3) True 2
           [0, 0, 2, 2, 0, 0, 1, 0] = Returned (Some (G, layout, colors))
         \<and> connected_graph G
         \<and> (\<exists>j Gs rand_j grid loc_to_id rand'.
               j < 2
               \<and> attempt_run j [(\<lparr>color = ColorName ''green'', reach = 1\<rparr>, 2)] (3, 3)
                     [0, 0, 2, 2, 0, 0, 1, 0] = Some (Gs, rand_j)
               \<and> length Gs = j
               \<and> attempt [(\<lparr>color = ColorName ''green'', reach = 1\<rparr>, 2)] (3, 3) rand_j
                   = Returned (G, layout, colors, grid, loc_to_id, rand')))
   \<and> make_social_circles_network [(\<lparr>color = ColorName ''green'', reach = 1\<rparr>, 2)] (3, 3) True 2
        [0, 0, 2, 2, 0, 0, 2, 2] = Returned None
   \<and> (\<exists>G1 G2 rand'.
         attempt_run 2 [(\<lparr>color = ColorName ''green'', reach = 1\<rparr>, 2)] (3, 3)
           [0, 0, 2, 2, 0, 0, 2, 2] = Some ([G1, G2], rand')
         \<and> \<not> connected_graph G1 \<and> \<not> connected_graph G2)"
proof -
  let ?items = "[(\<lparr>color = ColorName ''green'', reach = 1\<rparr>, 2 :: nat)]"
  have h: "(0::int) < fst (3 :: int, 3 :: int)" "(0::int) < snd (3 :: int, 3 :: int)"
    "0 < sum_list (map snd ?items)"
    "\<forall>(agent, quantity) \<in> set ?items. 0 \<le> reach agent \<and> reach agent \<le> 255"
    by simp_all
  have "case make_social_circles_network ?items (3, 3) True 2 [0, 0, 2, 2, 0, 0, 1, 0] of
          Returned (Some _) \<Rightarrow> True | _ \<Rightarrow> False"
    by code_simp
  then obtain G layout colors where
    r: "make_social_circles_network ?items (3, 3) True 2 [0, 0, 2, 2, 0, 0, 1, 0]
        = Returned (Some (G, layout, colors))"
    by (auto split: outcome.splits option.splits)
  from connected_or_none[OF h, of 2 "[0, 0, 2, 2, 0, 0, 1, 0]"] r
  have c: "connected_graph G
           \<and> (\<exists>j Gs rand_j grid loc_to_id rand'.
               j < 2
               \<and> attempt_run j ?items (3, 3) [0, 0, 2, 2, 0, 0, 1, 0] = Some (Gs, rand_j)
               \<and> length Gs = j
               \<and> attempt ?items (3, 3) rand_j = Returned (G, layout, colors, grid, loc_to_id, rand'))"
    by auto
  have "case make_social_circles_network ?items (3, 3) True 2 [0, 0, 2, 2, 0, 0, 2, 2] of
          Returned None \<Rightarrow> True | _ \<Rightarrow> False"
    by code_simp
  then have n: "make_social_circles_network ?items (3, 3) True 2 [0, 0, 2, 2, 0, 0, 2, 2] = Returned None"
    by (auto split: outcome.splits option.splits)
  from connected_or_none[OF h, of 2 "[0, 0, 2, 2, 0, 0, 2, 2]"] n
  obtain Gs rand' where
    g: "attempt_run 2 ?items (3, 3) [0, 0, 2, 2, 0, 0, 2, 2] = Some (Gs, rand')"
    "length Gs = 2" "\<forall>G' \<in> set Gs. \<not> connected_graph G'"
    by auto
  from g(2) obtain G1 G2 where "Gs = [G1, G2]"
    by (auto simp: length_Suc_conv numeral_2_eq_2)
  with g have d: "\<exists>G1 G2 rand'.
         attempt_run 2 ?items (3, 3) [0, 0, 2, 2, 0, 0, 2, 2] = Some ([G1, G2], rand')
         \<and> \<not> connected_graph G1 \<and> \<not> connected_graph G2"
    by auto
  have k: "0 \<le> reach \<lparr>color = ColorName ''green'', reach = 1\<rparr>"
    "reach \<lparr>color = ColorName ''green'', reach = 1\<rparr> \<le> 255" by simp_all
  from h(1,2,3) k r c n d show ?thesis by blast
qed

text \<open>
  Against claim C3 as stated (failure is never signalled by an exception): with an empty
  dict of agent types the graph of the first attempt is the null graph, on which
  \<^verbatim>\<open>nx.is_connected\<close> raises \<^verbatim>\<open>NetworkXPointlessConcept\<close>.
\<close>

theorem no_agents_raises:
  "(case make_social_circles_network [] (3, 3) True 5 [] of
      Raised e \<Rightarrow> e = NetworkXPointlessConcept
    | _ \<Rightarrow> False)"
  by code_simp

end
